theory Spec2Isabelle
  imports Complex_Main "HOL-Library.Sublist"
begin

section \<open>Data model\<close>

text \<open>
  The access layer of \<^verbatim>\<open>coins/src/utils/dynamodbV3.ts\<close> works on JavaScript objects that
  carry a partition key \<^verbatim>\<open>PK\<close> (a string) and a sort key \<^verbatim>\<open>SK\<close> (a number), next to
  any other attributes. A property that is missing reads as \<^verbatim>\<open>undefined\<close>: it is \<open>None\<close>
  here. JavaScript numbers are IEEE 754 doubles. Every finite double is a rational, and
  \<open>number\<close> is the type of the rationals; an arithmetic operation rounds its exact
  result to the nearest double (see the retry loop of the batched writes, the one
  place that computes). \<^verbatim>\<open>NaN\<close> and the infinities, which the store rejects as numbers,
  are not values of \<open>number\<close>: they appear only among the keys of \<^verbatim>\<open>DELETE\<close>, which
  looks at the truth value of a key. On strings, on these numbers and on \<^verbatim>\<open>undefined\<close>
  the strict equality \<^verbatim>\<open>===\<close> is equality of values, so it is \<open>=\<close> on the fields.
\<close>

type_synonym number = rat

record 'a entity =
  PK :: "string option"
  SK :: "number option"
  attrs :: 'a

subsection \<open>removeDuplicateKeys\<close>

text \<open>
  \<^verbatim>\<open>items.filter((item, index) => items.slice(0, index).every((checkedItem) =>
     !(checkedItem.PK === item.PK && checkedItem.SK === item.SK)))\<close>
\<close>

definition removeDuplicateKeys :: "'a entity list \<Rightarrow> 'a entity list" where
  "removeDuplicateKeys items =
     map snd (filter (\<lambda>(index, item).
        list_all (\<lambda>checkedItem. \<not> (PK checkedItem = PK item \<and> SK checkedItem = SK item))
          (take index items))
       (enumerate 0 items))"

definition key_of :: "'a entity \<Rightarrow> string option \<times> number option" where
  "key_of item = (PK item, SK item)"

subsection \<open>Errors\<close>

text \<open>
  The two errors the layer raises itself are \<^verbatim>\<open>new Error(message)\<close>; an error is its
  message. Errors of the store client's transport are not modelled: every native call
  answers.
\<close>

datatype error = Error (message: string)

definition ThrottledWrite :: error where
  "ThrottledWrite = Error ''Write requests throttled''"

definition BatchGetExhausted :: error where
  "BatchGetExhausted = Error ''Not all batchGet requests could be processed''"

text \<open>
  \<^verbatim>\<open>await Promise.all(promises)\<close>: the results in the array's order when every promise
  fulfils, the rejection otherwise. JavaScript surfaces the rejection that comes first
  in time; the model takes the first in the array, which is the same value wherever
  all rejections carry the same error.
\<close>

fun promise_all :: "(error + 'r) list \<Rightarrow> error + 'r list" where
  "promise_all [] = Inr []"
| "promise_all (Inl e # rs) = Inl e"
| "promise_all (Inr r # rs) = (case promise_all rs of Inl e \<Rightarrow> Inl e | Inr xs \<Rightarrow> Inr (r # xs))"

section \<open>Batched writes\<close>

subsection \<open>Arithmetic on doubles\<close>

text \<open>
  A finite double is \<open>m * 2 ^ e\<close> with an integer \<open>m\<close> of at most 53 bits and
  \<open>e \<ge> - 1074\<close>. \<open>floor_log2 n\<close> is the position of the leading bit of \<open>n \<ge> 1\<close>, and
  \<open>exponent x\<close> is the binary exponent of \<open>x \<noteq> 0\<close>, the integer \<open>e\<close> with
  \<open>2 ^ e \<le> \<bar>x\<bar> < 2 ^ (e + 1)\<close>. The doubles of that binade are the multiples of
  \<open>ulp x\<close>, the unit in the last place: \<open>2 ^ (e - 52)\<close>, and \<open>2 ^ - 1074\<close> for the
  subnormal numbers.
\<close>

function floor_log2 :: "nat \<Rightarrow> nat" where
  "floor_log2 n = (if n < 2 then 0 else Suc (floor_log2 (n div 2)))"
  by pat_completeness auto
termination
  by (relation "measure id") auto

declare floor_log2.simps [simp del]

definition exponent :: "rat \<Rightarrow> int" where
  "exponent x =
     (if 1 \<le> \<bar>x\<bar> then int (floor_log2 (nat \<lfloor>\<bar>x\<bar>\<rfloor>))
      else - int (floor_log2 (nat (\<lceil>1 / \<bar>x\<bar>\<rceil> - 1))) - 1)"

definition ulp :: "rat \<Rightarrow> rat" where
  "ulp x = 2 powi (max (exponent x - 52) (- 1074))"

text \<open>
  Rounding to the nearest integer, a tie going to the even one, and with it rounding
  to the nearest double, which is what every arithmetic operation of JavaScript does
  to its exact result. The largest finite double is below \<open>2 ^ 1024\<close>; a result beyond
  it would round to an infinity, which \<open>number\<close> does not have. The retry loop computes
  below 480 only, and \<open>to_double\<close> leaves the overflow out.
\<close>

definition round_half_even :: "rat \<Rightarrow> int" where
  "round_half_even q =
     (let n = \<lfloor>q\<rfloor>; f = q - of_int n
      in if f < 1 / 2 then n else if 1 / 2 < f then n + 1 else if even n then n else n + 1)"

definition to_double :: "rat \<Rightarrow> number" where
  "to_double x = (if x = 0 then 0 else of_int (round_half_even (x / ulp x)) * ulp x)"

text \<open>
  The operators \<^verbatim>\<open>**\<close>, \<^verbatim>\<open>*\<close>, \<^verbatim>\<open>/\<close>, \<^verbatim>\<open>-\<close> and \<^verbatim>\<open>+\<close> on two finite doubles (a natural
  number as the exponent of \<^verbatim>\<open>**\<close>, a divisor other than zero): the exact result,
  rounded. The language leaves the last bit of \<^verbatim>\<open>**\<close> to the engine; the loop raises 2
  to a small natural number only, where the exact power is a double and is what the
  engines return.
\<close>

definition js_exp :: "number \<Rightarrow> nat \<Rightarrow> number" where
  "js_exp x n = to_double (x ^ n)"

definition js_times :: "number \<Rightarrow> number \<Rightarrow> number" where
  "js_times x y = to_double (x * y)"

definition js_divide :: "number \<Rightarrow> number \<Rightarrow> number" where
  "js_divide x y = to_double (x / y)"

definition js_minus :: "number \<Rightarrow> number \<Rightarrow> number" where
  "js_minus x y = to_double (x - y)"

definition js_plus :: "number \<Rightarrow> number \<Rightarrow> number" where
  "js_plus x y = to_double (x + y)"

subsection \<open>underlyingBatchWrite: one chunk's retry loop\<close>

text \<open>
  The store is an external collaborator. One retry loop sees it through \<open>send\<close>:
  \<open>send retryCount request\<close> is what
  \<^verbatim>\<open>(await dynamodb.batchWrite(request)).UnprocessedItems?.[TableName] ?? []\<close> evaluates to
  at the attempt made with that retry count, and \<open>random retryCount\<close> is the value
  \<^verbatim>\<open>Math.random()\<close> returns there, a double from 0 up to but not 1. The retry count is a natural number: the function
  is private to the module, and \<^verbatim>\<open>batchWrite\<close>, its only caller, starts it at 0. The
  loop's effects are returned as the list of its events, in the order they happen;
  durations are milliseconds.
\<close>

datatype 'a write_request = PutRequest (Item: "'a entity")

text \<open>
  Modelled from the spec: \<^verbatim>\<open>sleep\<close> of \<^verbatim>\<open>./shared/sleep\<close> is not among the sources. The
  specification has the loop wait the given number of milliseconds before the next
  attempt, so \<^verbatim>\<open>await sleep(ms)\<close> is the event \<open>Sleep ms\<close>. \<open>LogThrottled\<close> is
  \<^verbatim>\<open>console.log("throttled", output?.UnprocessedItems)\<close>.
\<close>

datatype 'a write_event =
    NativeBatchWrite "'a write_request list"
  | Sleep number
  | LogThrottled "'a write_request list"

definition maxWriteRetries :: nat where
  "maxWriteRetries = 6"

function underlyingBatchWrite ::
  "(nat \<Rightarrow> 'a write_request list \<Rightarrow> 'a write_request list) \<Rightarrow> (nat \<Rightarrow> number) \<Rightarrow>
   'a write_request list \<Rightarrow> nat \<Rightarrow> bool \<Rightarrow> 'a write_event list \<times> (error + unit)" where
  "underlyingBatchWrite send random items retryCount failOnError =
     (let unprocessed = send retryCount items in
      if length unprocessed > 0 then
        if retryCount < maxWriteRetries then
          (let wait = js_times (js_exp 2 retryCount) 10;
               jitter = js_minus (js_times (random retryCount) wait) (js_divide wait 2);
               (events, outcome) =
                  underlyingBatchWrite send random unprocessed (retryCount + 1) failOnError
           in (NativeBatchWrite items # Sleep (js_plus wait jitter) # events, outcome))
        else if failOnError then
          ([NativeBatchWrite items, LogThrottled unprocessed], Inl ThrottledWrite)
        else ([NativeBatchWrite items], Inr ())
      else ([NativeBatchWrite items], Inr ()))"
  by pat_completeness auto
termination
  by (relation "measure (\<lambda>(send, random, items, retryCount, failOnError).
        maxWriteRetries - retryCount)") auto

declare underlyingBatchWrite.simps [simp del]

subsection \<open>batchWrite\<close>

definition batchWriteStep :: nat where
  "batchWriteStep = 25"

text \<open>
  \<^verbatim>\<open>for (let i = 0; i < items.length; i += batchWriteStep)\<close> with
  \<^verbatim>\<open>items.slice(i, i + batchWriteStep)\<close>: the slices the loop takes from index \<open>i\<close> on.
\<close>

function batchWrite_slices :: "nat \<Rightarrow> 'a list \<Rightarrow> 'a list list" where
  "batchWrite_slices i items =
     (if i < length items
      then take batchWriteStep (drop i items) # batchWrite_slices (i + batchWriteStep) items
      else [])"
  by pat_completeness auto
termination
  by (relation "measure (\<lambda>(i, items). length items - i)") (auto simp: batchWriteStep_def)

declare batchWrite_slices.simps [simp del]

text \<open>
  The retry loops of the chunks run concurrently, and their retries reach the store in
  an order that depends on timers and on the network. So the store is given per loop:
  \<open>store c\<close> and \<open>random c\<close> are the \<open>send\<close> and \<open>random\<close> of the loop of chunk number
  \<open>c\<close> (its position in \<^verbatim>\<open>writeRequests\<close>). Every interleaving of one run gives such a
  family, and a statement for all families holds for all interleavings. The result is
  the events of each loop, in chunk order, and the outcome of
  \<^verbatim>\<open>await Promise.all(writeRequests)\<close>. A loop that another loop's failure leaves behind
  still runs to its end, so its events are all there.
\<close>

definition batchWrite ::
  "(nat \<Rightarrow> nat \<Rightarrow> 'a write_request list \<Rightarrow> 'a write_request list) \<Rightarrow> (nat \<Rightarrow> nat \<Rightarrow> number) \<Rightarrow>
   'a entity list \<Rightarrow> bool \<Rightarrow> 'a write_event list list \<times> (error + unit)" where
  "batchWrite store random items failOnError =
     (let writeRequests =
        map (\<lambda>(c, itemsToWrite).
               let nonDuplicatedItems = removeDuplicateKeys itemsToWrite
               in underlyingBatchWrite (store c) (random c)
                    (map PutRequest nonDuplicatedItems) 0 failOnError)
          (enumerate 0 (batchWrite_slices 0 items))
      in (map fst writeRequests,
          case promise_all (map snd writeRequests) of Inl e \<Rightarrow> Inl e | Inr _ \<Rightarrow> Inr ()))"

text \<open>The outcome of the retry loop of chunk number \<open>c\<close> of a \<^verbatim>\<open>batchWrite\<close> call.\<close>

definition chunk_outcome ::
  "(nat \<Rightarrow> nat \<Rightarrow> 'a write_request list \<Rightarrow> 'a write_request list) \<Rightarrow> (nat \<Rightarrow> nat \<Rightarrow> number) \<Rightarrow>
   'a entity list \<Rightarrow> bool \<Rightarrow> nat \<Rightarrow> error + unit" where
  "chunk_outcome store random items failOnError c =
     snd (underlyingBatchWrite (store c) (random c)
            (map PutRequest (removeDuplicateKeys (batchWrite_slices 0 items ! c))) 0 failOnError)"

text \<open>The native batch-write calls among the events of one loop.\<close>

fun native_writes :: "'a write_event list \<Rightarrow> 'a write_request list list" where
  "native_writes [] = []"
| "native_writes (NativeBatchWrite request # events) = request # native_writes events"
| "native_writes (_ # events) = native_writes events"

section \<open>Batched reads\<close>

text \<open>
  \<open>Responses\<close> is \<^verbatim>\<open>r.Responses![TableName]\<close> and \<open>UnprocessedKeys\<close> is
  \<^verbatim>\<open>r.UnprocessedKeys?.[TableName]?.Keys ?? []\<close> of one native batch-get output.
\<close>

record ('k, 'v) batch_get_output =
  Responses :: "'v entity list"
  UnprocessedKeys :: "'k entity list"

text \<open>
  One pass of \<^verbatim>\<open>batchGet\<close> issues the native calls of all its chunks before it awaits
  any of them: \<open>NativeBatchGets\<close> holds the requests of one pass, in chunk order.
  \<open>LogUnprocessed\<close> is \<^verbatim>\<open>console.log("Unprocessed batchGet reqs:", keys)\<close>.
\<close>

datatype 'k get_event =
    NativeBatchGets "'k entity list list"
  | LogUnprocessed "'k entity list"

definition batchGetStep :: nat where
  "batchGetStep = 100"

function batchGet_slices :: "nat \<Rightarrow> 'a list \<Rightarrow> 'a list list" where
  "batchGet_slices i keys =
     (if i < length keys
      then take batchGetStep (drop i keys) # batchGet_slices (i + batchGetStep) keys
      else [])"
  by pat_completeness auto
termination
  by (relation "measure (\<lambda>(i, keys). length keys - i)") (auto simp: batchGetStep_def)

declare batchGet_slices.simps [simp del]

text \<open>
  The store answers through \<open>store\<close>: \<open>store retriesLeft c request\<close> is the output of the
  native batch-get call that the pass with this retry budget makes for its chunk
  number \<open>c\<close>. The budget is a count, a natural number.
\<close>

definition batchGet_requests :: "'k entity list \<Rightarrow> 'k entity list list" where
  "batchGet_requests keys = map removeDuplicateKeys (batchGet_slices 0 keys)"

definition batchGet_responses ::
  "(nat \<Rightarrow> nat \<Rightarrow> 'k entity list \<Rightarrow> ('k, 'v) batch_get_output) \<Rightarrow> nat \<Rightarrow> 'k entity list \<Rightarrow>
   ('k, 'v) batch_get_output list" where
  "batchGet_responses store retriesLeft keys =
     map (\<lambda>(c, request). store retriesLeft c request) (enumerate 0 (batchGet_requests keys))"

fun batchGet ::
  "(nat \<Rightarrow> nat \<Rightarrow> 'k entity list \<Rightarrow> ('k, 'v) batch_get_output) \<Rightarrow> 'k entity list \<Rightarrow> nat \<Rightarrow>
   'k get_event list \<times> (error + 'v entity list)" where
  "batchGet store keys retriesLeft =
     (if retriesLeft = 0 then ([LogUnprocessed keys], Inl BatchGetExhausted)
      else
        (let requests = batchGet_requests keys;
             responses = batchGet_responses store retriesLeft keys;
             processedResponses = concat (map Responses responses);
             unprocessed = concat (map UnprocessedKeys responses)
         in if length unprocessed > 0 then
              (case batchGet store unprocessed (retriesLeft - 1) of
                 (events, Inl e) \<Rightarrow> (NativeBatchGets requests # events, Inl e)
               | (events, Inr missingResponses) \<Rightarrow>
                   (NativeBatchGets requests # events,
                    Inr (processedResponses @ missingResponses)))
            else ([NativeBatchGets requests], Inr processedResponses)))"

declare batchGet.simps [simp del]

text \<open>
  The processed responses and the unprocessed keys that one pass of \<^verbatim>\<open>batchGet\<close>
  collects from its chunks, as the pass computes them.
\<close>

definition batchGet_processed ::
  "(nat \<Rightarrow> nat \<Rightarrow> 'k entity list \<Rightarrow> ('k, 'v) batch_get_output) \<Rightarrow> nat \<Rightarrow> 'k entity list \<Rightarrow>
   'v entity list" where
  "batchGet_processed store retriesLeft keys =
     concat (map Responses (batchGet_responses store retriesLeft keys))"

definition batchGet_unprocessed ::
  "(nat \<Rightarrow> nat \<Rightarrow> 'k entity list \<Rightarrow> ('k, 'v) batch_get_output) \<Rightarrow> nat \<Rightarrow> 'k entity list \<Rightarrow>
   'k entity list" where
  "batchGet_unprocessed store retriesLeft keys =
     concat (map UnprocessedKeys (batchGet_responses store retriesLeft keys))"

text \<open>
  The native batch-get calls among the events of a call, and the number of its passes
  that issued native calls.
\<close>

fun native_gets :: "'k get_event list \<Rightarrow> 'k entity list list" where
  "native_gets [] = []"
| "native_gets (NativeBatchGets requests # events) = requests @ native_gets events"
| "native_gets (_ # events) = native_gets events"

fun attempts :: "'k get_event list \<Rightarrow> nat" where
  "attempts [] = 0"
| "attempts (NativeBatchGets requests # events) = Suc (attempts events)"
| "attempts (_ # events) = attempts events"

section \<open>Paging through a partition\<close>







subsection \<open>The run of pages, in the specification's words\<close>




section \<open>Deleting keys\<close>

text \<open>
  \<^verbatim>\<open>DELETE(keys: { PK: string; SK: number }[])\<close> is the one operation that reads the truth
  value of a key's fields, and it is the one whose contract is about malformed keys.
  So its keys range over everything the declared types admit: a field may be missing,
  the partition key may be any string, the empty one included, and the sort key any
  JavaScript number, \<^verbatim>\<open>NaN\<close> and the infinities included.
\<close>

datatype js_number = Finite number | NaN | PosInfinity | NegInfinity

record js_key =
  keyPK :: "string option"
  keySK :: "js_number option"

text \<open>
  \<^verbatim>\<open>if (item.PK && (item.SK == 0 || item.SK))\<close>: a string is truthy unless it is empty or
  missing; a number is truthy unless it is zero, \<^verbatim>\<open>NaN\<close> or missing; and \<^verbatim>\<open>x == 0\<close> holds
  of the number zero only (\<^verbatim>\<open>undefined == 0\<close> and \<^verbatim>\<open>NaN == 0\<close> are false). \<open>DELETE\<close>
  returns the delete calls it issues, in order, each with its
  \<^verbatim>\<open>Key: { PK: item.PK, SK: item.SK }\<close>.
\<close>

definition truthy_string :: "string option \<Rightarrow> bool" where
  "truthy_string v = (case v of None \<Rightarrow> False | Some s \<Rightarrow> s \<noteq> [])"

definition truthy_number :: "js_number option \<Rightarrow> bool" where
  "truthy_number v =
     (case v of
        None \<Rightarrow> False
      | Some (Finite n) \<Rightarrow> n \<noteq> 0
      | Some NaN \<Rightarrow> False
      | Some PosInfinity \<Rightarrow> True
      | Some NegInfinity \<Rightarrow> True)"

definition loosely_zero :: "js_number option \<Rightarrow> bool" where
  "loosely_zero v = (case v of Some (Finite n) \<Rightarrow> n = 0 | _ \<Rightarrow> False)"

datatype delete_request = Delete (Key: js_key)

fun DELETE :: "js_key list \<Rightarrow> delete_request list" where
  "DELETE [] = []"
| "DELETE (item # keys) =
     (if truthy_string (keyPK item) \<and> (loosely_zero (keySK item) \<or> truthy_number (keySK item))
      then Delete \<lparr>keyPK = keyPK item, keySK = keySK item\<rparr> # DELETE keys
      else DELETE keys)"

section \<open>Example inputs and stores\<close>

text \<open>The list of the specification's deduplication example.\<close>

definition duplicated_items :: "nat entity list" where
  "duplicated_items =
     [\<lparr>PK = Some ''a'', SK = Some 1, attrs = 1\<rparr>,
      \<lparr>PK = Some ''a'', SK = Some 1, attrs = 2\<rparr>,
      \<lparr>PK = Some ''b'', SK = Some 1, attrs = 0\<rparr>]"

text \<open>
  The keys of the specification's delete example, a key whose partition key is the
  empty string, and a key whose sort key is \<^verbatim>\<open>NaN\<close>.
\<close>

definition delete_example_keys :: "js_key list" where
  "delete_example_keys =
     [\<lparr>keyPK = Some ''x'', keySK = Some (Finite 0)\<rparr>,
      \<lparr>keyPK = Some ''y'', keySK = None\<rparr>,
      \<lparr>keyPK = None, keySK = Some (Finite 1)\<rparr>]"

definition empty_pk_key :: js_key where
  "empty_pk_key = \<lparr>keyPK = Some [], keySK = Some (Finite 1)\<rparr>"

definition nan_sk_key :: js_key where
  "nan_sk_key = \<lparr>keyPK = Some ''x'', keySK = Some NaN\<rparr>"

text \<open>
  Stores for the write path: one that leaves every item unprocessed whatever the
  attempt, one that leaves every item unprocessed while the retry count is below six
  and then takes them all, and one that takes every item at once. The random draw
  \<open>1/2\<close> makes the jitter zero.
\<close>

definition always_throttled :: "nat \<Rightarrow> nat \<Rightarrow> 'a write_request list \<Rightarrow> 'a write_request list" where
  "always_throttled c retryCount request = request"

definition throttled_six_times :: "nat \<Rightarrow> nat \<Rightarrow> 'a write_request list \<Rightarrow> 'a write_request list" where
  "throttled_six_times c retryCount request = (if retryCount < 6 then request else [])"

definition accepts_all :: "nat \<Rightarrow> nat \<Rightarrow> 'a write_request list \<Rightarrow> 'a write_request list" where
  "accepts_all c retryCount request = []"

definition half :: "nat \<Rightarrow> nat \<Rightarrow> number" where
  "half c retryCount = 1 / 2"

text \<open>A generator that always draws the double nearest to 0.1.\<close>

definition tenth :: "nat \<Rightarrow> nat \<Rightarrow> number" where
  "tenth c retryCount = 3602879701896397 / 36028797018963968"

definition one_item :: "nat entity" where
  "one_item = \<lparr>PK = Some ''a'', SK = Some 1, attrs = 1\<rparr>"

text \<open>
  Two items with the same key and different attributes; a list of 26 items that has
  them at the indices 0 and 25, in different chunks; and the list of the two, in one
  chunk.
\<close>

definition second_copy :: "nat entity" where
  "second_copy = \<lparr>PK = Some ''a'', SK = Some 1, attrs = 2\<rparr>"

definition filler :: "nat \<Rightarrow> nat entity" where
  "filler n = \<lparr>PK = Some ''f'', SK = Some (of_nat n), attrs = 0\<rparr>"

definition across_chunks :: "nat entity list" where
  "across_chunks = one_item # map filler [0..<24] @ [second_copy]"

definition within_chunk :: "nat entity list" where
  "within_chunk = [one_item, second_copy]"

text \<open>
  Stores for the read path: one that reports the key \<open>k\<close> unprocessed in every answer,
  and one that processes two keys of a request and reports the others unprocessed.
  Both return the requested keys as the items found.
\<close>

definition never_processes ::
  "'k entity \<Rightarrow> nat \<Rightarrow> nat \<Rightarrow> 'k entity list \<Rightarrow> ('k, 'k) batch_get_output" where
  "never_processes k retriesLeft c request =
     \<lparr>Responses = filter (\<lambda>x. key_of x \<noteq> key_of k) request, UnprocessedKeys = [k]\<rparr>"





text \<open>
  A store that, asked with the retry budget 3, leaves the last key of every request
  unprocessed and answers every other request in full; and 150 keys, which make two
  chunks.
\<close>

definition throttles_last_once ::
  "nat \<Rightarrow> nat \<Rightarrow> 'k entity list \<Rightarrow> ('k, 'k) batch_get_output" where
  "throttles_last_once retriesLeft c request =
     (if retriesLeft = 3
      then \<lparr>Responses = butlast request, UnprocessedKeys = [last request]\<rparr>
      else \<lparr>Responses = request, UnprocessedKeys = []\<rparr>)"

definition many_keys :: "nat entity list" where
  "many_keys = map filler [0..<150]"




section \<open>Deduplication\<close>

lemma removeDuplicateKeys_Nil: "removeDuplicateKeys [] = []"
  by (simp add: removeDuplicateKeys_def)

lemma removeDuplicateKeys_snoc:
  "removeDuplicateKeys (xs @ [x]) =
     (if key_of x \<in> key_of ` set xs then removeDuplicateKeys xs
      else removeDuplicateKeys xs @ [x])"
proof -
  let ?keep = "\<lambda>ys. \<lambda>(index, item).
     list_all (\<lambda>c. \<not> (PK c = PK item \<and> SK c = SK item)) (take index ys)"
  have "filter (?keep (xs @ [x])) (enumerate 0 xs) = filter (?keep xs) (enumerate 0 xs)"
    by (rule filter_cong) (auto simp: in_set_enumerate_eq)
  moreover have "?keep (xs @ [x]) (length xs, x) \<longleftrightarrow> key_of x \<notin> key_of ` set xs"
    by (force simp: list_all_iff key_of_def image_iff)
  ultimately show ?thesis
    by (simp add: removeDuplicateKeys_def enumerate_append_eq)
qed

lemma key_set_removeDuplicateKeys:
  "key_of ` set (removeDuplicateKeys xs) = key_of ` set xs"
  by (induction xs rule: rev_induct)
     (auto simp: removeDuplicateKeys_Nil removeDuplicateKeys_snoc)

lemma distinct_keys_removeDuplicateKeys:
  "distinct (map key_of (removeDuplicateKeys xs))"
  by (induction xs rule: rev_induct)
     (simp_all add: removeDuplicateKeys_Nil removeDuplicateKeys_snoc key_set_removeDuplicateKeys)

lemma subseq_removeDuplicateKeys: "subseq (removeDuplicateKeys xs) xs"
proof (induction xs rule: rev_induct)
  case Nil
  show ?case by (simp add: removeDuplicateKeys_Nil)
next
  case (snoc x xs)
  have "subseq (removeDuplicateKeys xs) (xs @ [x])"
    using snoc.IH by (rule subseq_rev_drop_many)
  with snoc.IH show ?case
    by (simp add: removeDuplicateKeys_snoc)
qed


lemma removeDuplicateKeys_eq_Nil: "removeDuplicateKeys xs = [] \<longleftrightarrow> xs = []"
  using key_set_removeDuplicateKeys [of xs] by (auto simp: removeDuplicateKeys_Nil)

lemma find_snoc:
  "find P (xs @ [x]) =
     (case find P xs of None \<Rightarrow> (if P x then Some x else None) | Some y \<Rightarrow> Some y)"
  by (induction xs) auto

lemma find_first_of_kept:
  "y \<in> set (removeDuplicateKeys xs) \<Longrightarrow> find (\<lambda>x. key_of x = key_of y) xs = Some y"
proof (induction xs rule: rev_induct)
  case Nil
  then show ?case by (simp add: removeDuplicateKeys_Nil)
next
  case (snoc x xs)
  show ?case
  proof (cases "y \<in> set (removeDuplicateKeys xs)")
    case True
    then show ?thesis using snoc.IH by (simp add: find_snoc)
  next
    case False
    with snoc.prems have yx: "y = x" and new: "key_of x \<notin> key_of ` set xs"
      by (auto simp: removeDuplicateKeys_snoc split: if_splits)
    from new have "find (\<lambda>z. key_of z = key_of x) xs = None"
      by (force simp: find_None_iff image_iff)
    then show ?thesis using yx by (simp add: find_snoc)
  qed
qed

lemma filter_key_distinct:
  "distinct (map f xs) \<Longrightarrow> z \<in> set xs \<Longrightarrow> filter (\<lambda>y. f y = f z) xs = [z]"
proof (induction xs)
  case Nil
  then show ?case by simp
next
  case (Cons a xs)
  show ?case
  proof (cases "a = z")
    case True
    with Cons.prems have "\<forall>y \<in> set xs. f y \<noteq> f z" by (auto simp: image_iff)
    then have "filter (\<lambda>y. f y = f z) xs = []" by (simp add: filter_empty_conv)
    with True show ?thesis by simp
  next
    case False
    with Cons.prems have "z \<in> set xs" "f a \<noteq> f z" by (auto simp: image_iff)
    with Cons show ?thesis by simp
  qed
qed

text \<open>
  C4. For every list of entities, \<^verbatim>\<open>removeDuplicateKeys\<close> returns a list that keeps the
  order of its input (it is a subsequence of it) and holds every (PK, SK) pair of the
  input exactly once: the entries of the output with the key of an input item \<open>x\<close> are
  one entry, the first item of the input that has this key.
\<close>

theorem removeDuplicateKeys_first_occurrences:
  "subseq (removeDuplicateKeys items) items \<and>
   (\<forall>x \<in> set items. \<exists>z.
       find (\<lambda>y. key_of y = key_of x) items = Some z \<and>
       filter (\<lambda>y. key_of y = key_of x) (removeDuplicateKeys items) = [z])"
proof (intro conjI ballI)
  show "subseq (removeDuplicateKeys items) items"
    by (rule subseq_removeDuplicateKeys)
next
  fix x assume "x \<in> set items"
  then have "key_of x \<in> key_of ` set (removeDuplicateKeys items)"
    by (simp add: key_set_removeDuplicateKeys)
  then obtain z where z: "z \<in> set (removeDuplicateKeys items)" and k: "key_of z = key_of x"
    by auto
  have "find (\<lambda>y. key_of y = key_of z) items = Some z"
    using z by (rule find_first_of_kept)
  moreover have "filter (\<lambda>y. key_of y = key_of z) (removeDuplicateKeys items) = [z]"
    using distinct_keys_removeDuplicateKeys z by (rule filter_key_distinct)
  ultimately show "\<exists>z. find (\<lambda>y. key_of y = key_of x) items = Some z \<and>
       filter (\<lambda>y. key_of y = key_of x) (removeDuplicateKeys items) = [z]"
    using k by auto
qed

theorem removeDuplicateKeys_first_occurrences_witness:
  "subseq (removeDuplicateKeys duplicated_items) duplicated_items \<and>
   removeDuplicateKeys duplicated_items =
     [\<lparr>PK = Some ''a'', SK = Some 1, attrs = 1\<rparr>, \<lparr>PK = Some ''b'', SK = Some 1, attrs = 0\<rparr>] \<and>
   filter (\<lambda>y. key_of y = (Some ''a'', Some 1)) (removeDuplicateKeys duplicated_items) =
     [\<lparr>PK = Some ''a'', SK = Some 1, attrs = 1\<rparr>]"
proof -
  have ev: "removeDuplicateKeys duplicated_items =
     [\<lparr>PK = Some ''a'', SK = Some 1, attrs = 1\<rparr>, \<lparr>PK = Some ''b'', SK = Some 1, attrs = 0\<rparr>]"
    by (simp add: removeDuplicateKeys_def duplicated_items_def)
  have mem: "\<lparr>PK = Some ''a'', SK = Some 1, attrs = 2\<rparr> \<in> set duplicated_items"
    by (simp add: duplicated_items_def)
  from removeDuplicateKeys_first_occurrences [of duplicated_items] mem
  obtain z where "find (\<lambda>y. key_of y = key_of \<lparr>PK = Some ''a'', SK = Some 1, attrs = 2::nat\<rparr>) duplicated_items = Some z"
    and "filter (\<lambda>y. key_of y = key_of \<lparr>PK = Some ''a'', SK = Some 1, attrs = 2::nat\<rparr>) (removeDuplicateKeys duplicated_items) = [z]"
    by blast
  then have "filter (\<lambda>y. key_of y = (Some ''a'', Some 1)) (removeDuplicateKeys duplicated_items) =
     [\<lparr>PK = Some ''a'', SK = Some 1, attrs = 1\<rparr>]"
    by (simp add: duplicated_items_def key_of_def)
  with ev removeDuplicateKeys_first_occurrences [of duplicated_items] show ?thesis by simp
qed

text \<open>
  C10. \<^verbatim>\<open>removeDuplicateKeys\<close> is idempotent; its output never holds two entries with the
  same (PK, SK) pair; and a list whose (PK, SK) pairs are all different is returned
  as it is.
\<close>

theorem removeDuplicateKeys_idempotent:
  "removeDuplicateKeys (removeDuplicateKeys items) = removeDuplicateKeys items \<and>
   distinct (map key_of (removeDuplicateKeys items)) \<and>
   (distinct (map key_of items) \<longrightarrow> removeDuplicateKeys items = items)"
proof -
  have unchanged: "distinct (map key_of xs) \<Longrightarrow> removeDuplicateKeys xs = xs" for xs :: "'a entity list"
    by (induction xs rule: rev_induct)
       (auto simp: removeDuplicateKeys_Nil removeDuplicateKeys_snoc)
  show ?thesis
    using unchanged distinct_keys_removeDuplicateKeys by blast
qed

theorem removeDuplicateKeys_idempotent_witness:
  "distinct (map key_of (removeDuplicateKeys duplicated_items)) \<and>
   removeDuplicateKeys (removeDuplicateKeys duplicated_items) = removeDuplicateKeys duplicated_items \<and>
   distinct (map key_of (removeDuplicateKeys duplicated_items)) \<and>
   removeDuplicateKeys (removeDuplicateKeys duplicated_items) = [\<lparr>PK = Some ''a'', SK = Some 1, attrs = 1\<rparr>, \<lparr>PK = Some ''b'', SK = Some 1, attrs = 0\<rparr>]"
proof -
  have ev: "removeDuplicateKeys duplicated_items =
     [\<lparr>PK = Some ''a'', SK = Some 1, attrs = 1\<rparr>, \<lparr>PK = Some ''b'', SK = Some 1, attrs = 0\<rparr>]"
    by (simp add: removeDuplicateKeys_def duplicated_items_def)
  have d: "distinct (map key_of (removeDuplicateKeys duplicated_items))"
    by (simp add: ev key_of_def)
  from removeDuplicateKeys_idempotent [of "removeDuplicateKeys duplicated_items"] d
  have "removeDuplicateKeys (removeDuplicateKeys duplicated_items) = removeDuplicateKeys duplicated_items" by blast
  with d ev show ?thesis by simp
qed

section \<open>Deleting keys: which deletes are issued\<close>

text \<open>
  C8, as the specification states it: one delete for every key whose PK is present and
  whose SK is present. It fails twice: a key whose PK is the empty string and a key
  whose SK is \<^verbatim>\<open>NaN\<close> have both fields, and no delete is issued for either, since the
  guard tests the truth value of \<^verbatim>\<open>item.PK\<close> and, for a sort key that is not zero, the
  truth value of \<^verbatim>\<open>item.SK\<close>.
\<close>

theorem DELETE_falsy_key_counterexample:
  "keyPK empty_pk_key = Some [] \<and> keySK empty_pk_key = Some (Finite 1) \<and>
   DELETE [empty_pk_key] = [] \<and>
   keyPK nan_sk_key = Some ''x'' \<and> keySK nan_sk_key = Some NaN \<and>
   DELETE [nan_sk_key] = []"
  by (simp add: empty_pk_key_def nan_sk_key_def truthy_string_def truthy_number_def
        loosely_zero_def)

text \<open>
  C8, amended. \<^verbatim>\<open>DELETE\<close> issues, in the order of its input, exactly one delete for every
  key whose PK is present and not the empty string and whose SK is present and not
  \<^verbatim>\<open>NaN\<close>, the sort key zero included; the delete carries the key's PK and SK. Every
  other key is skipped.
\<close>

theorem DELETE_issues_for_keyed_items:
  "DELETE keys =
     map (\<lambda>item. Delete \<lparr>keyPK = keyPK item, keySK = keySK item\<rparr>)
       (filter (\<lambda>item. keyPK item \<noteq> None \<and> keyPK item \<noteq> Some [] \<and>
                       keySK item \<noteq> None \<and> keySK item \<noteq> Some NaN) keys)"
proof (induction keys)
  case Nil
  show ?case by simp
next
  case (Cons item keys)
  have "(truthy_string (keyPK item) \<and>
          (loosely_zero (keySK item) \<or> truthy_number (keySK item))) =
        (keyPK item \<noteq> None \<and> keyPK item \<noteq> Some [] \<and>
         keySK item \<noteq> None \<and> keySK item \<noteq> Some NaN)"
    by (auto simp: truthy_string_def loosely_zero_def truthy_number_def
          split: option.splits js_number.splits)
  with Cons.IH show ?case by simp
qed

theorem DELETE_issues_for_keyed_items_witness:
  "DELETE delete_example_keys = [Delete \<lparr>keyPK = Some ''x'', keySK = Some (Finite 0)\<rparr>] \<and>
   DELETE [\<lparr>keyPK = Some ''z'', keySK = Some PosInfinity\<rparr>, nan_sk_key, empty_pk_key] =
     [Delete \<lparr>keyPK = Some ''z'', keySK = Some PosInfinity\<rparr>]"
  using DELETE_issues_for_keyed_items [of delete_example_keys]
    DELETE_issues_for_keyed_items
      [of "[\<lparr>keyPK = Some ''z'', keySK = Some PosInfinity\<rparr>, nan_sk_key, empty_pk_key]"]
  by (simp add: delete_example_keys_def nan_sk_key_def empty_pk_key_def)

section \<open>Arithmetic on doubles: rounding\<close>

text \<open>The binary exponent: \<open>2 ^ exponent x \<le> \<bar>x\<bar> < 2 ^ (exponent x + 1)\<close>.\<close>

lemma floor_log2_bounds: "0 < n \<Longrightarrow> 2 ^ floor_log2 n \<le> n \<and> n < 2 ^ Suc (floor_log2 n)"
proof (induction n rule: floor_log2.induct)
  case (1 n)
  show ?case
  proof (cases "n < 2")
    case True
    with "1.prems" have "n = 1" by simp
    then show ?thesis by (simp add: floor_log2.simps)
  next
    case False
    then have "0 < n div 2" by simp
    with "1.IH" False have IH: "2 ^ floor_log2 (n div 2) \<le> n div 2"
      "n div 2 < 2 ^ Suc (floor_log2 (n div 2))"
      by simp_all
    have eq: "floor_log2 n = Suc (floor_log2 (n div 2))"
      using False by (subst floor_log2.simps) simp
    have "2 * (n div 2) \<le> n" and "n < 2 * (n div 2) + 2"
      by simp_all
    with IH show ?thesis unfolding eq power_Suc by linarith
  qed
qed

lemma exponent_bounds:
  assumes "x \<noteq> 0"
  shows "2 powi exponent x \<le> \<bar>x\<bar> \<and> \<bar>x\<bar> < 2 powi (exponent x + 1)"
proof (cases "1 \<le> \<bar>x\<bar>")
  case True
  let ?n = "nat \<lfloor>\<bar>x\<bar>\<rfloor>"
  have pos: "0 < ?n" using True by simp
  have e: "exponent x = int (floor_log2 ?n)"
    using True by (simp add: exponent_def)
  from floor_log2_bounds [OF pos]
  have lo: "2 ^ floor_log2 ?n \<le> ?n" and hi: "?n < 2 ^ Suc (floor_log2 ?n)" by simp_all
  have "(2::rat) ^ floor_log2 ?n = of_nat (2 ^ floor_log2 ?n)" by simp
  also have "\<dots> \<le> of_nat ?n" using lo by (simp only: of_nat_le_iff)
  also have "\<dots> = of_int \<lfloor>\<bar>x\<bar>\<rfloor>" using True by simp
  also have "\<dots> \<le> \<bar>x\<bar>" by simp
  finally have A: "2 powi exponent x \<le> \<bar>x\<bar>"
    by (simp add: e)
  have "\<lfloor>\<bar>x\<bar>\<rfloor> < 2 ^ Suc (floor_log2 ?n)"
    using hi True by (simp add: nat_less_iff)
  then have "\<lfloor>\<bar>x\<bar>\<rfloor> + 1 \<le> 2 ^ Suc (floor_log2 ?n)" by simp
  then have "(of_int (\<lfloor>\<bar>x\<bar>\<rfloor> + 1) :: rat) \<le> of_int (2 ^ Suc (floor_log2 ?n))"
    by (simp only: of_int_le_iff)
  moreover have "\<bar>x\<bar> < of_int (\<lfloor>\<bar>x\<bar>\<rfloor> + 1)" by linarith
  ultimately have "\<bar>x\<bar> < 2 ^ Suc (floor_log2 ?n)" by simp
  then have B: "\<bar>x\<bar> < 2 powi (exponent x + 1)"
    by (simp add: e power_int_add)
  from A B show ?thesis ..
next
  case False
  let ?y = "1 / \<bar>x\<bar>"
  let ?n = "nat (\<lceil>?y\<rceil> - 1)"
  let ?k = "floor_log2 ?n"
  have xpos: "0 < \<bar>x\<bar>" using assms by simp
  have y1: "1 < ?y" using False xpos by simp
  then have c2: "2 \<le> \<lceil>?y\<rceil>" by linarith
  then have pos: "0 < ?n" by simp
  have e: "exponent x = - int ?k - 1"
    using False by (simp add: exponent_def)
  from floor_log2_bounds [OF pos]
  have lo: "2 ^ ?k \<le> ?n" and hi: "?n < 2 ^ Suc ?k" by simp_all
  have n_int: "int ?n = \<lceil>?y\<rceil> - 1" using c2 assms by simp
  have "(2::int) ^ ?k \<le> \<lceil>?y\<rceil> - 1"
    using lo n_int by (metis of_nat_le_iff of_nat_numeral of_nat_power)
  then have "(2::int) ^ ?k < \<lceil>?y\<rceil>" by simp
  then have "(of_int (2 ^ ?k) :: rat) < ?y" by (simp only: less_ceiling_iff)
  then have ylo: "2 ^ ?k < ?y" by simp
  have "\<lceil>?y\<rceil> - 1 < 2 ^ Suc ?k"
    using hi n_int by (metis of_nat_less_iff of_nat_numeral of_nat_power)
  then have "\<lceil>?y\<rceil> \<le> 2 ^ Suc ?k" by simp
  then have "?y \<le> of_int (2 ^ Suc ?k)" by (simp only: ceiling_le_iff)
  then have yhi: "?y \<le> 2 ^ Suc ?k" by simp
  have A: "2 powi exponent x \<le> \<bar>x\<bar>"
  proof -
    have "1 \<le> \<bar>x\<bar> * 2 ^ Suc ?k"
      using yhi xpos by (simp add: field_simps)
    then have "1 / 2 ^ Suc ?k \<le> \<bar>x\<bar>"
      by (simp add: field_simps)
    moreover have "2 powi exponent x = (1::rat) / 2 ^ Suc ?k"
      unfolding e by (simp add: power_int_diff power_int_minus field_simps)
    ultimately show ?thesis by simp
  qed
  have B: "\<bar>x\<bar> < 2 powi (exponent x + 1)"
  proof -
    have "\<bar>x\<bar> * 2 ^ ?k < 1"
      using ylo xpos by (simp add: field_simps)
    then have "\<bar>x\<bar> < 1 / 2 ^ ?k"
      by (simp add: field_simps)
    moreover have "2 powi (exponent x + 1) = (1::rat) / 2 ^ ?k"
      unfolding e by (simp add: power_int_minus field_simps)
    ultimately show ?thesis by simp
  qed
  from A B show ?thesis ..
qed

lemma pow2_less_imp_less: "(2::rat) powi a < 2 powi b \<Longrightarrow> a < b"
  using power_int_increasing [of b a "2::rat"] by (cases "a < b") simp_all

lemma exponent_le:
  assumes "x \<noteq> 0" and "\<bar>x\<bar> < 2 powi (e + 1)"
  shows "exponent x \<le> e"
proof -
  have "(2::rat) powi exponent x < 2 powi (e + 1)"
    using exponent_bounds [OF assms(1)] assms(2) by simp
  then have "exponent x < e + 1"
    by (rule pow2_less_imp_less)
  then show ?thesis by simp
qed

lemma exponent_ge:
  assumes "2 powi e \<le> \<bar>x\<bar>"
  shows "e \<le> exponent x"
proof -
  have "(0::rat) < 2 powi e" by simp
  with assms have "0 < \<bar>x\<bar>" by linarith
  then have "x \<noteq> 0" by simp
  then have "(2::rat) powi e < 2 powi (exponent x + 1)"
    using exponent_bounds [of x] assms by simp
  then have "e < exponent x + 1"
    by (rule pow2_less_imp_less)
  then show ?thesis by simp
qed

lemma round_half_even_le: "q < of_int j + 1 / 2 \<Longrightarrow> round_half_even q \<le> j"
  unfolding round_half_even_def Let_def
  by (auto split: if_splits) linarith+

lemma round_half_even_ge: "of_int i - 1 / 2 < q \<Longrightarrow> i \<le> round_half_even q"
  unfolding round_half_even_def Let_def
  by (auto split: if_splits) linarith+

lemma round_half_even_error: "\<bar>of_int (round_half_even q) - q\<bar> \<le> 1 / 2"
  using floor_correct [of q] unfolding round_half_even_def Let_def
  by (auto split: if_splits)


lemma ulp_pos: "0 < ulp x"
  by (simp add: ulp_def)

lemma ulp_divides:
  assumes "x \<noteq> 0" and "- 1074 \<le> u" and "\<bar>x\<bar> < 2 powi (u + 53)"
  obtains n :: nat where "2 powi u = ulp x * 2 ^ n"
proof -
  have "exponent x \<le> u + 52"
    using assms(1,3) by (intro exponent_le) (simp_all add: add.commute add.left_commute)
  then have le: "max (exponent x - 52) (- 1074) \<le> u"
    using assms(2) by simp
  define d where "d = u - max (exponent x - 52) (- 1074)"
  have "0 \<le> d" using le by (simp add: d_def)
  have "(2::rat) powi u = 2 powi (max (exponent x - 52) (- 1074) + d)"
    by (simp add: d_def)
  also have "\<dots> = ulp x * 2 powi d"
    unfolding ulp_def by (rule power_int_add) simp
  also have "2 powi d = (2::rat) ^ nat d"
    using \<open>0 \<le> d\<close> by (rule power_int_nonneg_exp)
  finally show ?thesis by (rule that)
qed

lemma ulp_eq:
  assumes "- 1074 \<le> u" and "2 powi (u + 52) \<le> \<bar>x\<bar>" and "\<bar>x\<bar> < 2 powi (u + 53)"
  shows "ulp x = 2 powi u"
proof -
  have "(0::rat) < 2 powi (u + 52)" by simp
  with assms(2) have "0 < \<bar>x\<bar>" by linarith
  then have "x \<noteq> 0" by simp
  then have "exponent x \<le> u + 52"
    using assms(3) by (intro exponent_le) (simp_all add: add.commute add.left_commute)
  moreover have "u + 52 \<le> exponent x"
    using assms(2) by (rule exponent_ge)
  ultimately have "exponent x - 52 = u" by simp
  then show ?thesis using assms(1) by (simp add: ulp_def)
qed

lemma to_double_le:
  assumes b: "b = of_int j * 2 powi u" and u: "- 1074 \<le> u"
    and range: "\<bar>x\<bar> < 2 powi (u + 53)" and le: "x \<le> b"
  shows "to_double x \<le> b"
proof (cases "x = 0")
  case True
  then show ?thesis using le by (simp add: to_double_def)
next
  case False
  from ulp_divides [OF False u range] obtain n :: nat where n: "2 powi u = ulp x * 2 ^ n" .
  have b': "b = of_int (j * 2 ^ n) * ulp x"
    by (simp add: b n)
  have "x / ulp x \<le> of_int (j * 2 ^ n)"
    using le ulp_pos [of x] by (simp add: b' field_simps)
  then have "x / ulp x < of_int (j * 2 ^ n) + 1 / 2" by linarith
  then have "round_half_even (x / ulp x) \<le> j * 2 ^ n"
    by (rule round_half_even_le)
  then have "(of_int (round_half_even (x / ulp x)) :: rat) \<le> of_int (j * 2 ^ n)"
    by (simp only: of_int_le_iff)
  then have "of_int (round_half_even (x / ulp x)) * ulp x \<le> of_int (j * 2 ^ n) * ulp x"
    using ulp_pos [of x] by (simp only: mult_le_cancel_right_pos)
  then show ?thesis using False by (simp add: to_double_def b')
qed

lemma to_double_ge:
  assumes a: "a = of_int i * 2 powi u" and u: "- 1074 \<le> u"
    and range: "\<bar>x\<bar> < 2 powi (u + 53)" and ge: "a \<le> x"
  shows "a \<le> to_double x"
proof (cases "x = 0")
  case True
  then show ?thesis using ge by (simp add: to_double_def)
next
  case False
  from ulp_divides [OF False u range] obtain n :: nat where n: "2 powi u = ulp x * 2 ^ n" .
  have a': "a = of_int (i * 2 ^ n) * ulp x"
    by (simp add: a n)
  have "of_int (i * 2 ^ n) \<le> x / ulp x"
    using ge ulp_pos [of x] by (simp add: a' field_simps)
  then have "of_int (i * 2 ^ n) - 1 / 2 < x / ulp x" by linarith
  then have "i * 2 ^ n \<le> round_half_even (x / ulp x)"
    by (rule round_half_even_ge)
  then have "(of_int (i * 2 ^ n) :: rat) \<le> of_int (round_half_even (x / ulp x))"
    by (simp only: of_int_le_iff)
  then have "of_int (i * 2 ^ n) * ulp x \<le> of_int (round_half_even (x / ulp x)) * ulp x"
    using ulp_pos [of x] by (simp only: mult_le_cancel_right_pos)
  then show ?thesis using False by (simp add: to_double_def a')
qed

lemma to_double_exact:
  assumes "x = of_int m * 2 powi u" and "- 1074 \<le> u" and "\<bar>x\<bar> < 2 powi (u + 53)"
  shows "to_double x = x"
proof (rule antisym)
  show "to_double x \<le> x" using assms by (rule to_double_le) simp
  show "x \<le> to_double x" using assms by (rule to_double_ge) simp
qed

lemma to_double_below_midpoint:
  assumes b: "b = of_int j * 2 powi u" and u: "- 1074 \<le> u"
    and range: "\<bar>x\<bar> < 2 powi (u + 53)" and normal: "2 powi (u + 52) \<le> b"
    and below: "x < b + 2 powi u / 2"
  shows "to_double x \<le> b"
proof (cases "x \<le> b")
  case True
  with b u range show ?thesis by (rule to_double_le)
next
  case False
  then have "2 powi (u + 52) \<le> \<bar>x\<bar>" using normal by linarith
  with u have eq: "ulp x = 2 powi u" using range by (rule ulp_eq)
  have pos: "(0::rat) < 2 powi u" by simp
  have "x \<noteq> 0" using False normal zero_less_power_int [of "2::rat" "u + 52"] by linarith
  have "x / ulp x < of_int j + 1 / 2"
    using below pos by (simp add: eq b field_simps)
  then have "round_half_even (x / ulp x) \<le> j"
    by (rule round_half_even_le)
  then have "(of_int (round_half_even (x / ulp x)) :: rat) \<le> of_int j"
    by (simp only: of_int_le_iff)
  then have "of_int (round_half_even (x / ulp x)) * ulp x \<le> of_int j * ulp x"
    using ulp_pos [of x] by (simp only: mult_le_cancel_right_pos)
  then show ?thesis using \<open>x \<noteq> 0\<close> by (simp add: to_double_def b eq)
qed

lemma to_double_error:
  assumes u: "- 1074 \<le> u" and range: "\<bar>x\<bar> < 2 powi (u + 53)"
  shows "\<bar>to_double x - x\<bar> \<le> 2 powi u / 2"
proof (cases "x = 0")
  case True
  then show ?thesis by (simp add: to_double_def)
next
  case False
  from ulp_divides [OF False u range] obtain n :: nat where n: "2 powi u = ulp x * 2 ^ n" .
  have "(1::rat) \<le> 2 ^ n" by simp
  then have "ulp x * 1 \<le> ulp x * 2 ^ n"
    using ulp_pos [of x] by (simp only: mult_le_cancel_left_pos)
  then have le: "ulp x \<le> 2 powi u" by (simp add: n)
  have "to_double x - x = (of_int (round_half_even (x / ulp x)) - x / ulp x) * ulp x"
    using False ulp_pos [of x] by (simp add: to_double_def field_simps)
  then have "\<bar>to_double x - x\<bar> = \<bar>of_int (round_half_even (x / ulp x)) - x / ulp x\<bar> * ulp x"
    using ulp_pos [of x] by (simp add: abs_mult)
  also have "\<dots> \<le> 1 / 2 * ulp x"
    using round_half_even_error [of "x / ulp x"] ulp_pos [of x]
    by (simp only: mult_le_cancel_right_pos)
  also have "\<dots> \<le> 1 / 2 * 2 powi u"
    using le by simp
  finally show ?thesis by simp
qed

lemma double_below_one:
  assumes "to_double r = r" and "r < 1" and "0 \<le> r"
  shows "r \<le> 1 - 1 / 2 ^ 53"
proof (cases "r < 1 / 2")
  case True
  then show ?thesis by simp
next
  case False
  then have "2 powi (- 53 + 52) \<le> \<bar>r\<bar>" by simp
  moreover have "\<bar>r\<bar> < 2 powi (- 53 + 53)" using assms(2,3) by simp
  ultimately have eq: "ulp r = 2 powi (- 53)"
    by (intro ulp_eq) simp_all
  have "r \<noteq> 0" using False by simp
  define m where "m = round_half_even (r / ulp r)"
  have r: "r = of_int m / 2 ^ 53"
    using assms(1) \<open>r \<noteq> 0\<close> by (simp add: to_double_def eq m_def power_int_minus field_simps)
  then have "(of_int m :: rat) < of_int (2 ^ 53)"
    using assms(2) by simp
  then have "m < 2 ^ 53" by (simp only: of_int_less_iff)
  then have "m \<le> 2 ^ 53 - 1" by simp
  then have "(of_int m :: rat) \<le> of_int (2 ^ 53 - 1)" by (simp only: of_int_le_iff)
  then show ?thesis by (simp add: r field_simps)
qed

text \<open>
  The numbers of the back-off. The wait and its half are doubles, so the code computes
  them exactly; the product with the draw, the jitter and the sum are rounded.
\<close>

lemma pow2_grid: "(2::rat) ^ k = 2 ^ 49 * 2 powi (int k - 49)"
proof -
  have "(2::rat) powi (int k - 49) = 2 powi int k / 2 powi 49"
    by (rule power_int_diff) simp
  then show ?thesis by simp
qed

lemma pow2_range: "\<bar>(2::rat) ^ k * 10\<bar> < 2 powi (int k + 53)"
proof -
  have "(2::rat) powi (int k + 53) = 2 ^ k * 2 ^ 53"
    by (simp add: power_int_add)
  then show ?thesis by simp
qed

lemma to_double_pow2: "to_double (2 ^ k) = 2 ^ k"
proof (rule to_double_exact)
  show "(2::rat) ^ k = of_int 1 * 2 powi int k" by simp
  show "- 1074 \<le> int k" by simp
  have "\<bar>(2::rat) ^ k\<bar> \<le> \<bar>2 ^ k * 10\<bar>" by simp
  with pow2_range [of k] show "\<bar>(2::rat) ^ k\<bar> < 2 powi (int k + 53)"
    by linarith
qed

lemma to_double_wait: "to_double (2 ^ k * 10) = 2 ^ k * 10"
proof (rule to_double_exact)
  show "(2::rat) ^ k * 10 = of_int 10 * 2 powi int k" by simp
  show "- 1074 \<le> int k" by simp
  show "\<bar>(2::rat) ^ k * 10\<bar> < 2 powi (int k + 53)"
    by (rule pow2_range)
qed

lemma to_double_half_wait: "to_double (2 ^ k * 5) = 2 ^ k * 5"
proof (rule to_double_exact)
  show "(2::rat) ^ k * 5 = of_int 5 * 2 powi int k" by simp
  show "- 1074 \<le> int k" by simp
  have "\<bar>(2::rat) ^ k * 5\<bar> \<le> \<bar>2 ^ k * 10\<bar>" by simp
  with pow2_range [of k] show "\<bar>(2::rat) ^ k * 5\<bar> < 2 powi (int k + 53)"
    by linarith
qed

lemma backoff_wait: "js_times (js_exp 2 k) 10 = 2 ^ k * 10"
  by (simp only: js_times_def js_exp_def to_double_pow2 to_double_wait)

lemma backoff_half_wait: "js_divide (2 ^ k * 10) 2 = 2 ^ k * 5"
proof -
  have "(2::rat) ^ k * 10 / 2 = 2 ^ k * 5" by simp
  then show ?thesis by (simp only: js_divide_def to_double_half_wait)
qed

text \<open>The draw 1/2 gives no jitter: the sleep is the wait.\<close>

lemma backoff_half_draw:
  "js_plus (2 ^ k * 10) (js_minus (js_times (1 / 2) (2 ^ k * 10)) (2 ^ k * 5)) = 2 ^ k * 10"
proof -
  have "1 / 2 * ((2::rat) ^ k * 10) = 2 ^ k * 5" by simp
  then have "js_times (1 / 2) (2 ^ k * 10) = 2 ^ k * 5"
    by (simp only: js_times_def to_double_half_wait)
  moreover have "to_double 0 = 0" by (simp add: to_double_def)
  ultimately show ?thesis
    by (simp add: js_minus_def js_plus_def to_double_wait)
qed

lemma backoff_half_draw_computed:
  "js_plus (js_times (js_exp 2 k) 10)
     (js_minus (js_times (1 / 2) (js_times (js_exp 2 k) 10)) (js_divide (js_times (js_exp 2 k) 10) 2)) =
   2 ^ k * 10"
  by (simp only: backoff_wait backoff_half_wait backoff_half_draw)

lemma backoff_sleep:
  fixes k :: nat and r :: rat
  assumes double: "to_double r = r" and r0: "0 \<le> r" and r1: "r < 1"
  defines "jitter \<equiv> js_minus (js_times r (2 ^ k * 10)) (2 ^ k * 5)"
  shows "- (2 ^ k * 5) \<le> jitter" and "jitter < 2 ^ k * 5"
    and "2 ^ k * 5 \<le> js_plus (2 ^ k * 10) jitter"
    and "js_plus (2 ^ k * 10) jitter < 2 ^ k * 15"
    and "\<bar>js_plus (2 ^ k * 10) jitter - (2 ^ k * 10 + (r * (2 ^ k * 10) - 2 ^ k * 5))\<bar> \<le> 2 ^ k / 2 ^ 48"
proof -
  define u where "u = int k - 49"
  define g :: rat where "g = 2 powi u"
  define W :: rat where "W = 2 ^ k * 10"
  define p where "p = r * W"
  define x where "x = to_double p"
  have u: "- 1074 \<le> u" and u': "- 1074 \<le> u - 1" by (simp_all add: u_def)
  have g: "0 < g" by (simp add: g_def)
  have pow: "(2::rat) ^ k = 2 ^ 49 * g"
    unfolding g_def u_def by (rule pow2_grid)
  have W: "W = 5629499534213120 * g" by (simp add: W_def pow)
  have top: "2 powi (u + 53) = 9007199254740992 * g"
    by (simp add: g_def power_int_add)
  have mid: "2 powi (u + 52) = 4503599627370496 * g"
    by (simp add: g_def power_int_add)
  have quarter: "2 powi (u - 1) = g / 2"
    by (simp add: g_def power_int_diff)
  have "r \<le> 1 - 1 / 2 ^ 53" using double r1 r0 by (rule double_below_one)
  then have "r * W \<le> (1 - 1 / 2 ^ 53) * W"
    using g by (intro mult_right_mono) (simp_all add: W)
  then have p_hi: "p \<le> W - 5 / 8 * g" by (simp add: p_def W)
  have p_lo: "0 \<le> p" using r0 g by (simp add: p_def W)
  have x_lo: "0 \<le> x"
    unfolding x_def using _ u
  proof (rule to_double_ge)
    show "(0::rat) = of_int 0 * 2 powi u" by simp
    show "\<bar>p\<bar> < 2 powi (u + 53)" using p_lo p_hi g by (simp add: top W)
    show "0 \<le> p" by (rule p_lo)
  qed
  have x_hi: "x \<le> W - g"
    unfolding x_def using _ u
  proof (rule to_double_below_midpoint)
    show "W - g = of_int 5629499534213119 * 2 powi u" by (simp add: W g_def)
    show "\<bar>p\<bar> < 2 powi (u + 53)" using p_lo p_hi g by (simp add: top W)
    show "2 powi (u + 52) \<le> W - g" using g by (simp add: mid W)
    show "p < W - g + 2 powi u / 2" using p_hi g by (simp add: g_def [symmetric])
  qed
  have x_err: "\<bar>x - p\<bar> \<le> g / 2"
    unfolding x_def g_def using u
  proof (rule to_double_error)
    show "\<bar>p\<bar> < 2 powi (u + 53)" using p_lo p_hi g by (simp add: top W)
  qed
  have half: "(2::rat) ^ k * 5 = W / 2" and three: "(2::rat) ^ k * 15 = 3 * W / 2"
    by (simp_all add: W_def)
  have jitter: "jitter = to_double (x - W / 2)"
    unfolding jitter_def js_minus_def js_times_def x_def p_def half W_def ..
  have j_range: "\<bar>x - W / 2\<bar> < 2 powi (u + 53)"
    using x_lo x_hi g by (simp add: top W)
  have j_lo: "- (W / 2) \<le> jitter"
    unfolding jitter using _ u j_range
  proof (rule to_double_ge)
    show "- (W / 2) = of_int (- 2814749767106560) * 2 powi u" by (simp add: W g_def)
    show "- (W / 2) \<le> x - W / 2" using x_lo by simp
  qed
  have j_hi: "jitter \<le> W / 2 - g"
    unfolding jitter using _ u j_range
  proof (rule to_double_le)
    show "W / 2 - g = of_int 2814749767106559 * 2 powi u" by (simp add: W g_def)
    show "x - W / 2 \<le> W / 2 - g" using x_hi by simp
  qed
  have j_err: "\<bar>jitter - (x - W / 2)\<bar> \<le> g / 4"
  proof -
    have "\<bar>x - W / 2\<bar> < 2 powi (u + 52)"
      using x_lo x_hi g by (simp add: mid W)
    moreover have "u - 1 + 53 = u + 52" by simp
    ultimately have "\<bar>x - W / 2\<bar> < 2 powi (u - 1 + 53)"
      by (simp only:)
    with u' have "\<bar>to_double (x - W / 2) - (x - W / 2)\<bar> \<le> 2 powi (u - 1) / 2"
      by (rule to_double_error)
    then show ?thesis by (simp add: jitter quarter)
  qed
  have sleep: "js_plus (2 ^ k * 10) jitter = to_double (W + jitter)"
    by (simp add: js_plus_def W_def)
  have s_range: "\<bar>W + jitter\<bar> < 2 powi (u + 53)"
    using j_lo j_hi g by (simp add: top W)
  have s_lo: "W / 2 \<le> to_double (W + jitter)"
    using _ u s_range
  proof (rule to_double_ge)
    show "W / 2 = of_int 2814749767106560 * 2 powi u" by (simp add: W g_def)
    show "W / 2 \<le> W + jitter" using j_lo by simp
  qed
  have s_hi: "to_double (W + jitter) \<le> 3 * W / 2 - g"
    using _ u s_range
  proof (rule to_double_le)
    show "3 * W / 2 - g = of_int 8444249301319679 * 2 powi u" by (simp add: W g_def)
    show "W + jitter \<le> 3 * W / 2 - g" using j_hi by simp
  qed
  have s_err: "\<bar>to_double (W + jitter) - (W + jitter)\<bar> \<le> g / 2"
    unfolding g_def using u s_range by (rule to_double_error)
  show "- (2 ^ k * 5) \<le> jitter" using j_lo by (simp add: half)
  show "jitter < 2 ^ k * 5" using j_hi g by (simp add: half)
  show "2 ^ k * 5 \<le> js_plus (2 ^ k * 10) jitter" using s_lo by (simp add: sleep half)
  show "js_plus (2 ^ k * 10) jitter < 2 ^ k * 15" using s_hi g by (simp add: sleep three)
  have "\<bar>to_double (W + jitter) - (W + (p - W / 2))\<bar> \<le> 2 * g"
    using x_err j_err s_err g by linarith
  moreover have "(2::rat) ^ k / 2 ^ 48 = 2 * g" by (simp add: pow)
  ultimately have "\<bar>to_double (W + jitter) - (W + (p - W / 2))\<bar> \<le> 2 ^ k / 2 ^ 48"
    by (simp only:)
  then show "\<bar>js_plus (2 ^ k * 10) jitter - (2 ^ k * 10 + (r * (2 ^ k * 10) - 2 ^ k * 5))\<bar> \<le> 2 ^ k / 2 ^ 48"
    unfolding sleep half p_def W_def .
qed

section \<open>Batched writes: the retry loop and the chunks\<close>

text \<open>The three branches of one attempt of the retry loop.\<close>

lemma underlyingBatchWrite_done:
  "send retryCount items = [] \<Longrightarrow>
   underlyingBatchWrite send random items retryCount failOnError =
     ([NativeBatchWrite items], Inr ())"
  by (subst underlyingBatchWrite.simps) simp

lemma underlyingBatchWrite_retry:
  "send retryCount items \<noteq> [] \<Longrightarrow> retryCount < maxWriteRetries \<Longrightarrow>
   underlyingBatchWrite send random items retryCount failOnError =
     (NativeBatchWrite items #
      Sleep (js_plus (2 ^ retryCount * 10)
               (js_minus (js_times (random retryCount) (2 ^ retryCount * 10)) (2 ^ retryCount * 5))) #
      fst (underlyingBatchWrite send random (send retryCount items) (retryCount + 1) failOnError),
      snd (underlyingBatchWrite send random (send retryCount items) (retryCount + 1) failOnError))"
  by (subst underlyingBatchWrite.simps)
     (simp only: Let_def backoff_wait backoff_half_wait split: prod.splits, simp)

lemma underlyingBatchWrite_exhausted:
  "send retryCount items \<noteq> [] \<Longrightarrow> \<not> retryCount < maxWriteRetries \<Longrightarrow>
   underlyingBatchWrite send random items retryCount failOnError =
     (if failOnError
      then ([NativeBatchWrite items, LogThrottled (send retryCount items)], Inl ThrottledWrite)
      else ([NativeBatchWrite items], Inr ()))"
  by (subst underlyingBatchWrite.simps) simp

lemma underlyingBatchWrite_cases:
  obtains (settled) "send retryCount items = []"
  | (retry) "send retryCount items \<noteq> []" "retryCount < maxWriteRetries"
  | (exhausted) "send retryCount items \<noteq> []" "\<not> retryCount < maxWriteRetries"
  by blast

lemma underlyingBatchWrite_no_fail:
  "snd (underlyingBatchWrite send random items retryCount False) = Inr ()"
proof (induction send random items retryCount False rule: underlyingBatchWrite.induct)
  case (1 send random items retryCount)
  show ?case
  proof (cases rule: underlyingBatchWrite_cases [of send retryCount items])
    case settled
    then show ?thesis by (simp add: underlyingBatchWrite_done)
  next
    case retry
    then show ?thesis using "1" by (simp add: underlyingBatchWrite_retry)
  next
    case exhausted
    then show ?thesis by (simp add: underlyingBatchWrite_exhausted)
  qed
qed

lemma underlyingBatchWrite_only_throttled:
  "snd (underlyingBatchWrite send random items retryCount failOnError) = Inl e \<Longrightarrow>
   e = ThrottledWrite"
proof (induction send random items retryCount failOnError rule: underlyingBatchWrite.induct)
  case (1 send random items retryCount failOnError)
  show ?case
  proof (cases rule: underlyingBatchWrite_cases [of send retryCount items])
    case settled
    then show ?thesis using "1.prems" by (simp add: underlyingBatchWrite_done)
  next
    case retry
    then show ?thesis using "1" by (simp add: underlyingBatchWrite_retry)
  next
    case exhausted
    then show ?thesis using "1.prems"
      by (simp add: underlyingBatchWrite_exhausted split: if_splits)
  qed
qed


lemma underlyingBatchWrite_all_unprocessed:
  assumes "items \<noteq> []" and "\<And>k. retryCount \<le> k \<Longrightarrow> k \<le> maxWriteRetries \<Longrightarrow> send k items = items"
    and "retryCount \<le> maxWriteRetries"
  shows "snd (underlyingBatchWrite send random items retryCount True) = Inl ThrottledWrite \<and>
         native_writes (fst (underlyingBatchWrite send random items retryCount True)) =
           replicate (Suc maxWriteRetries - retryCount) items"
  using assms
proof (induction "maxWriteRetries - retryCount" arbitrary: retryCount)
  case 0
  then have "retryCount = maxWriteRetries" by simp
  with 0 show ?case by (simp add: underlyingBatchWrite_exhausted)
next
  case (Suc d)
  then have lt: "retryCount < maxWriteRetries" and d: "d = maxWriteRetries - (retryCount + 1)"
    by simp_all
  have here: "send retryCount items = items" using Suc.prems lt by simp
  have "snd (underlyingBatchWrite send random items (retryCount + 1) True) = Inl ThrottledWrite \<and>
         native_writes (fst (underlyingBatchWrite send random items (retryCount + 1) True)) =
           replicate (Suc maxWriteRetries - (retryCount + 1)) items"
    using Suc.hyps(1) [OF d] Suc.prems lt by simp
  moreover have "Suc maxWriteRetries - retryCount = Suc (Suc maxWriteRetries - (retryCount + 1))"
    using lt by simp
  ultimately show ?case
    using here lt Suc.prems(1) by (simp add: underlyingBatchWrite_retry)
qed

lemma batchWrite_slices_sizes:
  "chunk \<in> set (batchWrite_slices i items) \<Longrightarrow> chunk \<noteq> [] \<and> length chunk \<le> batchWriteStep"
proof (induction i items rule: batchWrite_slices.induct)
  case (1 i items)
  show ?case
  proof (cases "i < length items")
    case True
    with "1.prems" have "chunk = take batchWriteStep (drop i items) \<or>
        chunk \<in> set (batchWrite_slices (i + batchWriteStep) items)"
      by (subst (asm) batchWrite_slices.simps) simp
    then show ?thesis using "1.IH" True by (auto simp: batchWriteStep_def)
  next
    case False
    with "1.prems" show ?thesis by (subst (asm) batchWrite_slices.simps) simp
  qed
qed

lemma batchWrite_slices_nth:
  "c < length (batchWrite_slices i items) \<Longrightarrow>
   batchWrite_slices i items ! c = take batchWriteStep (drop (i + c * batchWriteStep) items)"
proof (induction i items arbitrary: c rule: batchWrite_slices.induct)
  case (1 i items)
  show ?case
  proof (cases "i < length items")
    case True
    then have unfold: "batchWrite_slices i items =
        take batchWriteStep (drop i items) # batchWrite_slices (i + batchWriteStep) items"
      by (subst batchWrite_slices.simps) simp
    show ?thesis
    proof (cases c)
      case 0
      then show ?thesis by (simp add: unfold)
    next
      case (Suc c')
      with "1.prems" have "c' < length (batchWrite_slices (i + batchWriteStep) items)"
        by (simp add: unfold)
      with "1.IH" [OF True this] Suc show ?thesis by (simp add: unfold ac_simps)
    qed
  next
    case False
    with "1.prems" show ?thesis by (subst (asm) batchWrite_slices.simps) simp
  qed
qed

lemma batchWrite_events_nth:
  "c < length (batchWrite_slices 0 items) \<Longrightarrow>
   fst (batchWrite store random items failOnError) ! c =
     fst (underlyingBatchWrite (store c) (random c)
           (map PutRequest (removeDuplicateKeys (batchWrite_slices 0 items ! c))) 0 failOnError)"
  by (simp add: batchWrite_def Let_def nth_enumerate_eq)


lemma promise_all_Inl:
  "promise_all rs = Inl e \<Longrightarrow> Inl e \<in> set rs"
  by (induction rs rule: promise_all.induct) (auto split: sum.splits)

lemma promise_all_Inr:
  "promise_all rs = Inr xs \<Longrightarrow> Inl e \<notin> set rs"
  by (induction rs arbitrary: xs rule: promise_all.induct) (auto split: sum.splits)

lemma batchWrite_slices_single: "batchWrite_slices 0 [x] = [[x]]"
  by (simp add: batchWrite_slices.simps batchWriteStep_def)

lemma removeDuplicateKeys_single: "removeDuplicateKeys [x] = [x]"
  by (simp add: removeDuplicateKeys_def)

lemma promise_all_throttled:
  assumes "Inl ThrottledWrite \<in> set rs" and "\<forall>e. Inl e \<in> set rs \<longrightarrow> e = ThrottledWrite"
  shows "promise_all rs = Inl ThrottledWrite"
proof (cases "promise_all rs")
  case (Inl e)
  then have "Inl e \<in> set rs" by (rule promise_all_Inl)
  with assms(2) Inl show ?thesis by simp
next
  case (Inr xs)
  then have "Inl ThrottledWrite \<notin> set rs" by (rule promise_all_Inr)
  with assms(1) show ?thesis by simp
qed

lemma batchWrite_outcomes:
  "snd (batchWrite store random items failOnError) =
     (case promise_all (map (chunk_outcome store random items failOnError)
                          [0..<length (batchWrite_slices 0 items)]) of
        Inl e \<Rightarrow> Inl e | Inr _ \<Rightarrow> Inr ())"
proof -
  have "map snd (map (\<lambda>(c, itemsToWrite).
               let nonDuplicatedItems = removeDuplicateKeys itemsToWrite
               in underlyingBatchWrite (store c) (random c)
                    (map PutRequest nonDuplicatedItems) 0 failOnError)
          (enumerate 0 (batchWrite_slices 0 items))) =
        map (chunk_outcome store random items failOnError) [0..<length (batchWrite_slices 0 items)]"
    by (rule nth_equalityI) (simp_all add: nth_enumerate_eq chunk_outcome_def)
  then show ?thesis
    unfolding batchWrite_def Let_def snd_conv by (simp only:)
qed

lemma batchWrite_never_fails_without_failOnError:
  "snd (batchWrite store random items False) = Inr ()"
proof (cases "promise_all (map (chunk_outcome store random items False)
                          [0..<length (batchWrite_slices 0 items)])")
  case (Inl e)
  then have "Inl e \<in> set (map (chunk_outcome store random items False)
                          [0..<length (batchWrite_slices 0 items)])"
    by (rule promise_all_Inl)
  then obtain c where "chunk_outcome store random items False c = Inl e"
    by auto
  then show ?thesis
    by (simp add: chunk_outcome_def underlyingBatchWrite_no_fail)
next
  case (Inr xs)
  then show ?thesis by (simp add: batchWrite_outcomes)
qed

subsection \<open>Exhausting the retry budget\<close>

text \<open>
  C1, as the specification states it: all items unprocessed on the first six attempts
  of a chunk's loop make a call with \<^verbatim>\<open>failOnError = true\<close> fail. It fails: the loop
  retries while the retry count is below six, so a seventh attempt follows the sixth
  wait. The store below reports the single item unprocessed on the attempts with the
  retry counts 0 to 5 and takes it on the seventh; the call makes seven native calls
  and returns without an error.
\<close>

theorem batchWrite_six_attempts_counterexample:
  "throttled_six_times 0 0 [PutRequest one_item] = [PutRequest one_item] \<and>
   throttled_six_times 0 1 [PutRequest one_item] = [PutRequest one_item] \<and>
   throttled_six_times 0 2 [PutRequest one_item] = [PutRequest one_item] \<and>
   throttled_six_times 0 3 [PutRequest one_item] = [PutRequest one_item] \<and>
   throttled_six_times 0 4 [PutRequest one_item] = [PutRequest one_item] \<and>
   throttled_six_times 0 5 [PutRequest one_item] = [PutRequest one_item] \<and>
   batchWrite throttled_six_times half [one_item] True =
     ([[NativeBatchWrite [PutRequest one_item], Sleep 10,
        NativeBatchWrite [PutRequest one_item], Sleep 20,
        NativeBatchWrite [PutRequest one_item], Sleep 40,
        NativeBatchWrite [PutRequest one_item], Sleep 80,
        NativeBatchWrite [PutRequest one_item], Sleep 160,
        NativeBatchWrite [PutRequest one_item], Sleep 320,
        NativeBatchWrite [PutRequest one_item]]], Inr ())"
  by (simp add: batchWrite_def batchWrite_slices_single removeDuplicateKeys_single underlyingBatchWrite.simps [of "throttled_six_times 0"] throttled_six_times_def half_def maxWriteRetries_def Let_def backoff_half_draw_computed)

text \<open>
  C1, amended. If the store reports all items of the request unprocessed on the first
  seven attempts (the first attempt and the six retries) of the retry loop of one
  chunk, a call with \<^verbatim>\<open>failOnError = true\<close> fails with the error whose message is
  \<^verbatim>\<open>Write requests throttled\<close>, after exactly seven native calls of that loop; a call
  with \<^verbatim>\<open>failOnError = false\<close> returns without an error.
\<close>

theorem batchWrite_throttled_after_seven_attempts:
  assumes chunk: "c < length (batchWrite_slices 0 items)"
    and request: "request = map PutRequest (removeDuplicateKeys (batchWrite_slices 0 items ! c))"
    and unprocessed: "\<forall>retryCount < 7. store c retryCount request = request"
  shows "snd (batchWrite store random items True) = Inl ThrottledWrite \<and>
         message ThrottledWrite = ''Write requests throttled'' \<and>
         native_writes (fst (batchWrite store random items True) ! c) = replicate 7 request \<and>
         snd (batchWrite store random items False) = Inr ()"
proof -
  let ?rs = "map (chunk_outcome store random items True) [0..<length (batchWrite_slices 0 items)]"
  have "batchWrite_slices 0 items ! c \<in> set (batchWrite_slices 0 items)"
    using chunk by simp
  then have "batchWrite_slices 0 items ! c \<noteq> []"
    using batchWrite_slices_sizes by blast
  then have nonempty: "request \<noteq> []"
    by (simp add: request removeDuplicateKeys_eq_Nil)
  have "\<And>k. k \<le> maxWriteRetries \<Longrightarrow> store c k request = request"
    using unprocessed by (simp add: maxWriteRetries_def)
  then have loop: "snd (underlyingBatchWrite (store c) (random c) request 0 True) = Inl ThrottledWrite \<and>
      native_writes (fst (underlyingBatchWrite (store c) (random c) request 0 True)) =
        replicate (Suc maxWriteRetries - 0) request"
    using nonempty by (intro underlyingBatchWrite_all_unprocessed) simp_all
  then have "chunk_outcome store random items True c = Inl ThrottledWrite"
    unfolding chunk_outcome_def request by (rule conjunct1)
  then have "Inl ThrottledWrite \<in> chunk_outcome store random items True ` {0..<length (batchWrite_slices 0 items)}"
    using chunk by (metis atLeastLessThan_iff image_eqI zero_le)
  then have "Inl ThrottledWrite \<in> set ?rs"
    by simp
  moreover have "\<forall>e. Inl e \<in> set ?rs \<longrightarrow> e = ThrottledWrite"
  proof (intro allI impI)
    fix e assume "Inl e \<in> set ?rs"
    then obtain c' where "chunk_outcome store random items True c' = Inl e"
      by auto
    then show "e = ThrottledWrite"
      unfolding chunk_outcome_def by (rule underlyingBatchWrite_only_throttled)
  qed
  ultimately have "promise_all ?rs = Inl ThrottledWrite"
    by (rule promise_all_throttled)
  then have failed: "snd (batchWrite store random items True) = Inl ThrottledWrite"
    by (simp add: batchWrite_outcomes)
  have "fst (batchWrite store random items True) ! c =
     fst (underlyingBatchWrite (store c) (random c) request 0 True)"
    unfolding request using chunk by (rule batchWrite_events_nth)
  then have calls: "native_writes (fst (batchWrite store random items True) ! c) = replicate 7 request"
    using loop by (simp add: maxWriteRetries_def)
  have "message ThrottledWrite = ''Write requests throttled''"
    by (simp add: ThrottledWrite_def)
  with failed calls show ?thesis
    using batchWrite_never_fails_without_failOnError by blast
qed

theorem batchWrite_throttled_after_seven_attempts_witness:
  "snd (batchWrite always_throttled half [one_item] True) = Inl ThrottledWrite \<and>
   native_writes (fst (batchWrite always_throttled half [one_item] True) ! 0) =
     replicate 7 [PutRequest one_item] \<and>
   snd (batchWrite always_throttled half [one_item] False) = Inr ()"
proof -
  have chunk: "(0::nat) < length (batchWrite_slices 0 [one_item])"
    by (simp add: batchWrite_slices_single)
  have request: "[PutRequest one_item] =
      map PutRequest (removeDuplicateKeys (batchWrite_slices 0 [one_item] ! 0))"
    by (simp add: batchWrite_slices_single removeDuplicateKeys_single)
  have unprocessed:
    "\<forall>retryCount < 7. always_throttled 0 retryCount [PutRequest one_item] = [PutRequest one_item]"
    by (simp add: always_throttled_def)
  from batchWrite_throttled_after_seven_attempts
         [of 0 "[one_item]" "[PutRequest one_item]" always_throttled half,
          OF chunk request unprocessed]
  show ?thesis by simp
qed

subsection \<open>The wait between two attempts\<close>

text \<open>
  C6. When an attempt with a retry count below six leaves items unprocessed, the loop
  sleeps \<open>wait + jitter\<close> milliseconds, the sum being the one of JavaScript, of doubles.
  Here \<open>wait\<close> is exactly \<open>2 ^ retryCount * 10\<close>, and \<open>jitter\<close> is what the code computes
  as \<^verbatim>\<open>Math.random() * wait - wait / 2\<close>, where the half of the wait is exact and the
  product and the difference are rounded. For every draw of \<^verbatim>\<open>Math.random()\<close>, a double
  from 0 up to but not 1, the jitter lies in \<open>[- wait / 2, wait / 2)\<close> and the sleep in
  \<open>[5 * 2 ^ retryCount, 15 * 2 ^ retryCount)\<close>, and the sleep is within
  \<open>2 ^ retryCount / 2 ^ 48\<close> of the sum computed without rounding. The next attempt is
  made with exactly the unprocessed items and the retry count plus one.
\<close>

theorem underlyingBatchWrite_backoff:
  assumes "send retryCount items \<noteq> []" and "retryCount < 6"
    and "to_double (random retryCount) = random retryCount"
    and "0 \<le> random retryCount" and "random retryCount < 1"
  shows "let wait = 2 ^ retryCount * 10;
             jitter = js_minus (js_times (random retryCount) wait) (wait / 2);
             sleep = js_plus wait jitter;
             retry = underlyingBatchWrite send random (send retryCount items) (retryCount + 1) failOnError
         in underlyingBatchWrite send random items retryCount failOnError =
              (NativeBatchWrite items # Sleep sleep # fst retry, snd retry) \<and>
            - (wait / 2) \<le> jitter \<and> jitter < wait / 2 \<and>
            5 * 2 ^ retryCount \<le> sleep \<and> sleep < 15 * 2 ^ retryCount \<and>
            \<bar>sleep - (wait + (random retryCount * wait - wait / 2))\<bar> \<le> 2 ^ retryCount / 2 ^ 48"
proof -
  have half: "(2::rat) ^ retryCount * 10 / 2 = 2 ^ retryCount * 5"
    and low: "5 * (2::rat) ^ retryCount = 2 ^ retryCount * 5"
    and high: "15 * (2::rat) ^ retryCount = 2 ^ retryCount * 15"
    by simp_all
  note bounds = backoff_sleep [OF assms(3,4,5), of retryCount]
  have run: "underlyingBatchWrite send random items retryCount failOnError =
      (NativeBatchWrite items #
       Sleep (js_plus (2 ^ retryCount * 10)
                (js_minus (js_times (random retryCount) (2 ^ retryCount * 10)) (2 ^ retryCount * 5))) #
       fst (underlyingBatchWrite send random (send retryCount items) (retryCount + 1) failOnError),
       snd (underlyingBatchWrite send random (send retryCount items) (retryCount + 1) failOnError))"
    using assms(1,2) by (intro underlyingBatchWrite_retry) (simp_all add: maxWriteRetries_def)
  show ?thesis
    unfolding Let_def half low high
    using run bounds by blast
qed

theorem underlyingBatchWrite_backoff_witness:
  "always_throttled 0 5 [PutRequest one_item] \<noteq> [] \<and> (5::nat) < 6 \<and>
   to_double (tenth 0 5) = tenth 0 5 \<and> 0 \<le> tenth 0 5 \<and> tenth 0 5 < 1 \<and>
   tenth 0 5 = to_double (1 / 10) \<and>
   underlyingBatchWrite (always_throttled 0) (tenth 0) [PutRequest one_item] 5 False =
     (NativeBatchWrite [PutRequest one_item] # Sleep 192 #
        fst (underlyingBatchWrite (always_throttled 0) (tenth 0) [PutRequest one_item] 6 False),
      snd (underlyingBatchWrite (always_throttled 0) (tenth 0) [PutRequest one_item] 6 False))"
proof -
  have unprocessed: "always_throttled 0 5 [PutRequest one_item] \<noteq> []"
    by (simp add: always_throttled_def)
  have budget: "(5::nat) < 6" by simp
  have double: "to_double (tenth 0 5) = tenth 0 5"
    by code_simp
  have nearest: "tenth 0 5 = to_double (1 / 10)"
    by code_simp
  have lower: "0 \<le> tenth 0 5" and upper: "tenth 0 5 < 1"
    by (simp_all add: tenth_def)
  have sleep: "js_plus (2 ^ 5 * 10) (js_minus (js_times (tenth 0 5) (2 ^ 5 * 10)) (2 ^ 5 * 10 / 2)) = 192"
    by code_simp
  from underlyingBatchWrite_backoff
         [of "always_throttled 0" 5 "[PutRequest one_item]" "tenth 0" False,
          OF unprocessed budget double lower upper]
  have "underlyingBatchWrite (always_throttled 0) (tenth 0) [PutRequest one_item] 5 False =
     (NativeBatchWrite [PutRequest one_item] # Sleep 192 #
        fst (underlyingBatchWrite (always_throttled 0) (tenth 0) [PutRequest one_item] 6 False),
      snd (underlyingBatchWrite (always_throttled 0) (tenth 0) [PutRequest one_item] 6 False))"
    unfolding Let_def sleep by (simp add: always_throttled_def)
  with unprocessed double nearest lower upper show ?thesis
    by simp
qed

subsection \<open>Deduplication is per chunk\<close>

lemma underlyingBatchWrite_first_call:
  "\<exists>rest. fst (underlyingBatchWrite send random items retryCount failOnError) =
      NativeBatchWrite items # rest"
  by (cases rule: underlyingBatchWrite_cases [of send retryCount items])
     (simp_all add: underlyingBatchWrite_done underlyingBatchWrite_retry
        underlyingBatchWrite_exhausted)

lemma batchWrite_first_call:
  assumes "c < length (batchWrite_slices 0 items)"
  shows "hd (native_writes (fst (batchWrite store random items failOnError) ! c)) =
     map PutRequest (removeDuplicateKeys (take 25 (drop (c * 25) items)))"
proof -
  obtain rest where "fst (underlyingBatchWrite (store c) (random c)
      (map PutRequest (removeDuplicateKeys (batchWrite_slices 0 items ! c))) 0 failOnError) =
      NativeBatchWrite (map PutRequest (removeDuplicateKeys (batchWrite_slices 0 items ! c))) # rest"
    using underlyingBatchWrite_first_call by blast
  then show ?thesis
    using assms by (simp add: batchWrite_events_nth batchWrite_slices_nth batchWriteStep_def)
qed

lemma batchWrite_slices_across_chunks: "length (batchWrite_slices 0 across_chunks) = 2"
  by (simp add: batchWrite_slices.simps batchWriteStep_def across_chunks_def)

lemma batchWrite_slices_within_chunk: "length (batchWrite_slices 0 within_chunk) = 1"
  by (simp add: batchWrite_slices.simps batchWriteStep_def within_chunk_def)

lemma across_chunks_first_slice: "take 25 across_chunks = one_item # map filler [0..<24]"
  by (simp add: across_chunks_def)

lemma across_chunks_second_slice: "drop 25 across_chunks = [second_copy]"
  by (simp add: across_chunks_def)

lemma first_chunk_keeps_one_item: "one_item \<in> set (removeDuplicateKeys (one_item # map filler [0..<24]))"
proof -
  have "key_of one_item \<in> key_of ` set (removeDuplicateKeys (one_item # map filler [0..<24]))"
    by (simp add: key_set_removeDuplicateKeys)
  then obtain z where z: "z \<in> set (removeDuplicateKeys (one_item # map filler [0..<24]))"
    and k: "key_of z = key_of one_item" by auto
  from z have "find (\<lambda>x. key_of x = key_of z) (one_item # map filler [0..<24]) = Some z"
    by (rule find_first_of_kept)
  with k have "z = one_item" by simp
  with z show ?thesis by simp
qed

text \<open>
  C9. The first native call of the retry loop of chunk number \<open>c\<close> submits the
  deduplicated slice of that chunk, whatever the other chunks hold: deduplication is
  per chunk. So for some input with two items of one (PK, SK) pair in different chunks
  (here at the indices 0 and 25 of 26 items) both items are submitted, each in the
  call of its chunk, while two such items in one chunk are pruned to the first.
\<close>

theorem batchWrite_deduplicates_per_chunk:
  "(\<forall>c < length (batchWrite_slices 0 items).
      hd (native_writes (fst (batchWrite store random items failOnError) ! c)) =
        map PutRequest (removeDuplicateKeys (take 25 (drop (c * 25) items)))) \<and>
   key_of one_item = key_of second_copy \<and>
   across_chunks ! 0 = one_item \<and> across_chunks ! 25 = second_copy \<and>
   PutRequest one_item \<in>
     set (hd (native_writes (fst (batchWrite store random across_chunks failOnError) ! 0))) \<and>
   PutRequest second_copy \<in>
     set (hd (native_writes (fst (batchWrite store random across_chunks failOnError) ! 1))) \<and>
   hd (native_writes (fst (batchWrite store random within_chunk failOnError) ! 0)) =
     [PutRequest one_item]"
proof (intro conjI allI impI)
  fix c assume "c < length (batchWrite_slices 0 items)"
  then show "hd (native_writes (fst (batchWrite store random items failOnError) ! c)) =
        map PutRequest (removeDuplicateKeys (take 25 (drop (c * 25) items)))"
    by (rule batchWrite_first_call)
next
  show "key_of one_item = key_of second_copy"
    by (simp add: key_of_def one_item_def second_copy_def)
next
  show "across_chunks ! 0 = one_item" by (simp add: across_chunks_def)
next
  show "across_chunks ! 25 = second_copy"
    by (simp add: across_chunks_def nth_append)
next
  have "hd (native_writes (fst (batchWrite store random across_chunks failOnError) ! 0)) =
      map PutRequest (removeDuplicateKeys (one_item # map filler [0..<24]))"
    using batchWrite_first_call [of 0 across_chunks store random failOnError]
    by (simp add: batchWrite_slices_across_chunks across_chunks_first_slice)
  then show "PutRequest one_item \<in>
     set (hd (native_writes (fst (batchWrite store random across_chunks failOnError) ! 0)))"
    using first_chunk_keeps_one_item by simp
next
  have "hd (native_writes (fst (batchWrite store random across_chunks failOnError) ! 1)) =
      map PutRequest (removeDuplicateKeys [second_copy])"
    using batchWrite_first_call [of 1 across_chunks store random failOnError]
    by (simp add: batchWrite_slices_across_chunks across_chunks_second_slice)
  then show "PutRequest second_copy \<in>
     set (hd (native_writes (fst (batchWrite store random across_chunks failOnError) ! 1)))"
    by (simp add: removeDuplicateKeys_single)
next
  have kept: "removeDuplicateKeys within_chunk = [one_item]"
    by (simp add: removeDuplicateKeys_def within_chunk_def one_item_def second_copy_def)
  have chunk: "0 < length (batchWrite_slices 0 within_chunk)"
    by (simp add: batchWrite_slices_within_chunk)
  have "take 25 (drop (0 * 25) within_chunk) = within_chunk"
    by (simp add: within_chunk_def)
  with batchWrite_first_call [OF chunk, of store random failOnError] kept
  show "hd (native_writes (fst (batchWrite store random within_chunk failOnError) ! 0)) =
     [PutRequest one_item]"
    by simp
qed

theorem batchWrite_deduplicates_per_chunk_witness:
  "(1::nat) < length (batchWrite_slices 0 across_chunks) \<and>
   hd (native_writes (fst (batchWrite accepts_all half across_chunks False) ! 1)) =
     [PutRequest second_copy] \<and>
   batchWrite accepts_all half within_chunk False = ([[NativeBatchWrite [PutRequest one_item]]], Inr ())"
proof -
  have c: "(1::nat) < length (batchWrite_slices 0 across_chunks)"
    by (simp add: batchWrite_slices_across_chunks)
  from batchWrite_deduplicates_per_chunk [of across_chunks accepts_all half False] c
  have "hd (native_writes (fst (batchWrite accepts_all half across_chunks False) ! 1)) =
        map PutRequest (removeDuplicateKeys (take 25 (drop (1 * 25) across_chunks)))"
    by blast
  then have "hd (native_writes (fst (batchWrite accepts_all half across_chunks False) ! 1)) =
     [PutRequest second_copy]"
    by (simp add: across_chunks_second_slice removeDuplicateKeys_single)
  moreover have "batchWrite accepts_all half within_chunk False =
      ([[NativeBatchWrite [PutRequest one_item]]], Inr ())"
    by (simp add: batchWrite_def batchWrite_slices.simps batchWriteStep_def within_chunk_def
          removeDuplicateKeys_def one_item_def second_copy_def underlyingBatchWrite_done
          accepts_all_def)
  ultimately show ?thesis using c by simp
qed

section \<open>Batched reads: passes and retries\<close>

text \<open>The branches of one pass of \<^verbatim>\<open>batchGet\<close>.\<close>

lemma batchGet_zero:
  "batchGet store keys 0 = ([LogUnprocessed keys], Inl BatchGetExhausted)"
  by (simp add: batchGet.simps)

lemma batchGet_last_pass:
  "0 < retriesLeft \<Longrightarrow> batchGet_unprocessed store retriesLeft keys = [] \<Longrightarrow>
   batchGet store keys retriesLeft =
     ([NativeBatchGets (batchGet_requests keys)],
      Inr (batchGet_processed store retriesLeft keys))"
  by (subst batchGet.simps)
     (simp add: Let_def batchGet_unprocessed_def batchGet_processed_def)

lemma batchGet_retry:
  "0 < retriesLeft \<Longrightarrow> batchGet_unprocessed store retriesLeft keys \<noteq> [] \<Longrightarrow>
   batchGet store keys retriesLeft =
     (NativeBatchGets (batchGet_requests keys) #
        fst (batchGet store (batchGet_unprocessed store retriesLeft keys) (retriesLeft - 1)),
      case snd (batchGet store (batchGet_unprocessed store retriesLeft keys) (retriesLeft - 1)) of
        Inl e \<Rightarrow> Inl e
      | Inr missingResponses \<Rightarrow>
          Inr (batchGet_processed store retriesLeft keys @ missingResponses))"
  by (subst batchGet.simps)
     (simp add: Let_def batchGet_unprocessed_def batchGet_processed_def
        split: prod.splits sum.splits)


lemma batchGet_slices_eq_Nil: "batchGet_slices 0 keys = [] \<longleftrightarrow> keys = []"
  by (subst batchGet_slices.simps) simp



lemma concat_replicate_single: "concat (replicate n [x]) = replicate n x"
  by (induction n) simp_all

lemma batchGet_unprocessed_same_key:
  assumes "\<forall>retriesLeft c request. UnprocessedKeys (store retriesLeft c request) = [k]"
  shows "batchGet_unprocessed store retriesLeft keys =
     replicate (length (batchGet_slices 0 keys)) k"
proof -
  have "map UnprocessedKeys (batchGet_responses store retriesLeft keys) =
        replicate (length (batchGet_slices 0 keys)) [k]"
    using assms
    by (intro nth_equalityI)
       (simp_all add: batchGet_responses_def batchGet_requests_def nth_enumerate_eq)
  then show ?thesis
    by (simp add: batchGet_unprocessed_def concat_replicate_single)
qed

lemma batchGet_same_key_exhausts:
  assumes same: "\<forall>retriesLeft c request. UnprocessedKeys (store retriesLeft c request) = [k]"
  shows "keys \<noteq> [] \<Longrightarrow>
     snd (batchGet store keys n) = Inl BatchGetExhausted \<and>
     attempts (fst (batchGet store keys n)) = n \<and>
     (\<exists>ks. last (fst (batchGet store keys n)) = LogUnprocessed ks \<and> ks \<noteq> [] \<and>
           (0 < n \<longrightarrow> set ks = {k}))"
proof (induction n arbitrary: keys)
  case 0
  then show ?case by (simp add: batchGet_zero)
next
  case (Suc n)
  let ?m = "length (batchGet_slices 0 keys)"
  have m: "0 < ?m" using Suc.prems by (simp add: batchGet_slices_eq_Nil)
  have unprocessed: "batchGet_unprocessed store (Suc n) keys = replicate ?m k"
    using same by (rule batchGet_unprocessed_same_key)
  have nonempty: "replicate ?m k \<noteq> []" using m by simp
  have step: "batchGet store keys (Suc n) =
     (NativeBatchGets (batchGet_requests keys) # fst (batchGet store (replicate ?m k) n),
      case snd (batchGet store (replicate ?m k) n) of
        Inl e \<Rightarrow> Inl e
      | Inr missingResponses \<Rightarrow>
          Inr (batchGet_processed store (Suc n) keys @ missingResponses))"
    using batchGet_retry [of "Suc n" store keys] nonempty by (simp add: unprocessed)
  from Suc.IH [OF nonempty] obtain ks where
    failed: "snd (batchGet store (replicate ?m k) n) = Inl BatchGetExhausted" and
    count: "attempts (fst (batchGet store (replicate ?m k) n)) = n" and
    logged: "last (fst (batchGet store (replicate ?m k) n)) = LogUnprocessed ks" and
    ks: "ks \<noteq> []" "0 < n \<longrightarrow> set ks = {k}"
    by blast
  have events: "fst (batchGet store (replicate ?m k) n) \<noteq> []"
  proof (cases n)
    case 0
    then show ?thesis by (simp add: batchGet_zero)
  next
    case (Suc n')
    then show ?thesis
      using batchGet_retry [of n store "replicate ?m k"]
        batchGet_last_pass [of n store "replicate ?m k"]
      by (cases "batchGet_unprocessed store n (replicate ?m k) = []") simp_all
  qed
  have "set ks = {k}"
  proof (cases n)
    case 0
    with logged have "ks = replicate ?m k" by (simp add: batchGet_zero)
    with m show ?thesis by auto
  next
    case (Suc n')
    with ks show ?thesis by simp
  qed
  with failed count logged ks events show ?case
    by (simp add: step)
qed

subsection \<open>Sizes of the native calls\<close>









subsection \<open>Exhausting the read budget\<close>

lemma batchGet_slices_single:
  "keys \<noteq> [] \<Longrightarrow> length keys \<le> 100 \<Longrightarrow> batchGet_slices 0 keys = [keys]"
  by (subst batchGet_slices.simps, subst batchGet_slices.simps) (simp add: batchGetStep_def)

lemma batchGet_same_key_calls:
  assumes same: "\<forall>retriesLeft c request. UnprocessedKeys (store retriesLeft c request) = [k]"
  shows "keys \<noteq> [] \<Longrightarrow> length keys \<le> 100 \<Longrightarrow>
     length (native_gets (fst (batchGet store keys n))) = n"
proof (induction n arbitrary: keys)
  case 0
  then show ?case by (simp add: batchGet_zero)
next
  case (Suc n)
  have slices: "batchGet_slices 0 keys = [keys]"
    using Suc.prems by (rule batchGet_slices_single)
  have unprocessed: "batchGet_unprocessed store (Suc n) keys = [k]"
    using batchGet_unprocessed_same_key [OF same, of "Suc n" keys] by (simp add: slices)
  have "length (native_gets (fst (batchGet store [k] n))) = n"
    by (rule Suc.IH) simp_all
  then show ?case
    using batchGet_retry [of "Suc n" store keys]
    by (simp add: unprocessed batchGet_requests_def slices)
qed

text \<open>
  C3. With no retries left \<^verbatim>\<open>batchGet\<close> fails at once with the error whose message is
  \<^verbatim>\<open>Not all batchGet requests could be processed\<close>, logs the keys it was given and
  issues no native call. So when the store reports one and the same key \<open>k\<close> of the
  requested keys unprocessed in every answer, \<^verbatim>\<open>batchGet(keys, 3)\<close> fails with this
  error after exactly three passes of native calls, and the keys it logs last are
  copies of \<open>k\<close>; when the keys fit one chunk, the three passes are exactly three
  native calls.
\<close>

theorem batchGet_exhausted:
  "batchGet store keys 0 = ([LogUnprocessed keys], Inl BatchGetExhausted) \<and>
   message BatchGetExhausted = ''Not all batchGet requests could be processed'' \<and>
   native_gets (fst (batchGet store keys 0)) = [] \<and>
   (k \<in> set keys \<and>
    (\<forall>retriesLeft c request. UnprocessedKeys (store retriesLeft c request) = [k]) \<longrightarrow>
      snd (batchGet store keys 3) = Inl BatchGetExhausted \<and>
      attempts (fst (batchGet store keys 3)) = 3 \<and>
      (\<exists>ks. last (fst (batchGet store keys 3)) = LogUnprocessed ks \<and> set ks = {k}) \<and>
      (length keys \<le> 100 \<longrightarrow> length (native_gets (fst (batchGet store keys 3))) = 3))"
proof (intro conjI impI)
  assume scenario: "k \<in> set keys \<and>
    (\<forall>retriesLeft c request. UnprocessedKeys (store retriesLeft c request) = [k])"
  then have nonempty: "keys \<noteq> []" by auto
  with scenario have run: "snd (batchGet store keys 3) = Inl BatchGetExhausted \<and>
     attempts (fst (batchGet store keys 3)) = 3 \<and>
     (\<exists>ks. last (fst (batchGet store keys 3)) = LogUnprocessed ks \<and> ks \<noteq> [] \<and>
           (0 < (3::nat) \<longrightarrow> set ks = {k}))"
    by (intro batchGet_same_key_exhausts) simp_all
  from run show "snd (batchGet store keys 3) = Inl BatchGetExhausted" by simp
  from run show "attempts (fst (batchGet store keys 3)) = 3" by simp
  from run show "\<exists>ks. last (fst (batchGet store keys 3)) = LogUnprocessed ks \<and> set ks = {k}"
    by auto
  assume "length keys \<le> 100"
  with scenario nonempty show "length (native_gets (fst (batchGet store keys 3))) = 3"
    by (intro batchGet_same_key_calls) simp_all
qed (simp_all add: batchGet_zero BatchGetExhausted_def)

theorem batchGet_exhausted_witness:
  "one_item \<in> set [one_item] \<and>
   snd (batchGet (never_processes one_item) [one_item] 3) = Inl BatchGetExhausted \<and>
   attempts (fst (batchGet (never_processes one_item) [one_item] 3)) = 3 \<and>
   length (native_gets (fst (batchGet (never_processes one_item) [one_item] 3))) = 3 \<and>
   batchGet (never_processes one_item) [one_item] 3 =
     ([NativeBatchGets [[one_item]], NativeBatchGets [[one_item]], NativeBatchGets [[one_item]],
       LogUnprocessed [one_item]], Inl BatchGetExhausted)"
proof -
  have same: "\<forall>retriesLeft c request.
      UnprocessedKeys (never_processes one_item retriesLeft c request) = [one_item]"
    by (simp add: never_processes_def)
  have slices: "batchGet_slices 0 [one_item] = [[one_item]]"
    by (simp add: batchGet_slices.simps batchGetStep_def)
  have pass: "batchGet_unprocessed (never_processes one_item) r [one_item] = [one_item]" for r
    by (simp add: batchGet_unprocessed_def batchGet_responses_def batchGet_requests_def
          slices removeDuplicateKeys_single never_processes_def)
  have requests: "batchGet_requests [one_item] = [[one_item]]"
    by (simp add: batchGet_requests_def slices removeDuplicateKeys_single)
  have "batchGet (never_processes one_item) [one_item] 3 =
     ([NativeBatchGets [[one_item]], NativeBatchGets [[one_item]], NativeBatchGets [[one_item]],
       LogUnprocessed [one_item]], Inl BatchGetExhausted)"
    by (simp add: batchGet_retry batchGet_zero pass requests eval_nat_numeral)
  with batchGet_exhausted [of "never_processes one_item" "[one_item]" one_item] same
  show ?thesis by simp
qed

subsection \<open>The result of a successful read\<close>

text \<open>
  The chunks of a pass, written out: chunk number \<open>c\<close> of the \<open>(length keys + 99) div 100\<close>
  chunks is the slice of 100 keys from index \<open>c * 100\<close>, deduplicated.
\<close>

lemma chunk_count_step:
  assumes "i < n"
  shows "(n - i + 99) div 100 = Suc ((n - (i + 100) + 99) div (100::nat))"
proof (cases "i + 100 \<le> n")
  case True
  then obtain m where n: "n = i + 100 + m"
    using le_Suc_ex by blast
  have "(m + 99 + 100) div 100 = Suc ((m + 99) div (100::nat))"
    by simp
  then show ?thesis by (simp add: n add.commute add.left_commute)
next
  case False
  with assms have "100 \<le> n - i + 99" "n - i + 99 < 200" "n - (i + 100) = 0"
    by simp_all
  then have "(n - i + 99) div 100 = 1" "(n - (i + 100) + 99) div 100 = 0"
    by (simp_all add: div_nat_eqI)
  then show ?thesis by simp
qed

lemma batchGet_slices_explicit:
  "batchGet_slices i keys =
     map (\<lambda>c. take 100 (drop (i + c * 100) keys)) [0..<(length keys - i + 99) div 100]"
proof (induction i keys rule: batchGet_slices.induct)
  case (1 i keys)
  show ?case
  proof (cases "i < length keys")
    case True
    define m where "m = (length keys - (i + 100) + 99) div 100"
    have unfold: "batchGet_slices i keys =
        take 100 (drop i keys) # batchGet_slices (i + 100) keys"
      using True by (subst batchGet_slices.simps) (simp add: batchGetStep_def)
    have rest: "batchGet_slices (i + 100) keys =
        map (\<lambda>c. take 100 (drop (i + 100 + c * 100) keys)) [0..<m]"
      using "1.IH" [OF True] by (simp add: batchGetStep_def m_def)
    have count: "(length keys - i + 99) div 100 = Suc m"
      unfolding m_def using True by (rule chunk_count_step)
    have "map (\<lambda>c. take 100 (drop (i + c * 100) keys)) [0..<Suc m] =
        take 100 (drop (i + 0 * 100) keys) #
        map (\<lambda>c. take 100 (drop (i + Suc c * 100) keys)) [0..<m]"
      by (rule map_upt_Suc)
    also have "\<dots> = take 100 (drop i keys) #
        map (\<lambda>c. take 100 (drop (i + 100 + c * 100) keys)) [0..<m]"
      by (simp add: add.assoc)
    finally show ?thesis
      by (simp only: unfold rest count)
  next
    case False
    then show ?thesis
      by (subst batchGet_slices.simps) simp
  qed
qed

lemma batchGet_requests_explicit:
  "batchGet_requests keys =
     map (\<lambda>c. removeDuplicateKeys (take 100 (drop (c * 100) keys)))
       [0..<(length keys + 99) div 100]"
  by (simp add: batchGet_requests_def batchGet_slices_explicit comp_def)

lemma batchGet_responses_explicit:
  "batchGet_responses store retriesLeft keys =
     map (\<lambda>c. store retriesLeft c (removeDuplicateKeys (take 100 (drop (c * 100) keys))))
       [0..<(length keys + 99) div 100]"
  by (rule nth_equalityI)
     (simp_all add: batchGet_responses_def batchGet_requests_explicit nth_enumerate_eq)

lemma removeDuplicateKeys_distinct:
  "distinct (map key_of xs) \<Longrightarrow> removeDuplicateKeys xs = xs"
  by (induction xs rule: rev_induct)
     (auto simp: removeDuplicateKeys_Nil removeDuplicateKeys_snoc)

text \<open>
  C7. When \<^verbatim>\<open>batchGet\<close> succeeds, its result is the processed responses of its chunks
  (the responses of the store to the deduplicated slices of 100 keys), concatenated in
  chunk order, followed by the result of the recursive call, which is made on exactly
  the unprocessed keys collected from the chunks, in chunk order, with one retry less;
  when no chunk reports an unprocessed key there is no recursive call, and the pass's
  native calls are the only events.
\<close>

theorem batchGet_result:
  assumes "snd (batchGet store keys retriesLeft) = Inr result"
  shows "let chunks = (length keys + 99) div 100;
             request = (\<lambda>c. removeDuplicateKeys (take 100 (drop (c * 100) keys)));
             processed = concat (map (\<lambda>c. Responses (store retriesLeft c (request c))) [0..<chunks]);
             unprocessed =
               concat (map (\<lambda>c. UnprocessedKeys (store retriesLeft c (request c))) [0..<chunks])
         in 0 < retriesLeft \<and>
            (if unprocessed = []
             then result = processed \<and>
                  fst (batchGet store keys retriesLeft) =
                    [NativeBatchGets (map request [0..<chunks])]
             else \<exists>missingResponses.
                    snd (batchGet store unprocessed (retriesLeft - 1)) = Inr missingResponses \<and>
                    result = processed @ missingResponses \<and>
                    fst (batchGet store keys retriesLeft) =
                      NativeBatchGets (map request [0..<chunks]) #
                      fst (batchGet store unprocessed (retriesLeft - 1)))"
proof -
  let ?chunks = "(length keys + 99) div 100"
  let ?request = "\<lambda>c. removeDuplicateKeys (take 100 (drop (c * 100) keys))"
  have processed: "batchGet_processed store retriesLeft keys =
      concat (map (\<lambda>c. Responses (store retriesLeft c (?request c))) [0..<?chunks])"
    by (simp add: batchGet_processed_def batchGet_responses_explicit comp_def)
  have unprocessed: "batchGet_unprocessed store retriesLeft keys =
      concat (map (\<lambda>c. UnprocessedKeys (store retriesLeft c (?request c))) [0..<?chunks])"
    by (simp add: batchGet_unprocessed_def batchGet_responses_explicit comp_def)
  have requests: "batchGet_requests keys = map ?request [0..<?chunks]"
    by (rule batchGet_requests_explicit)
  have budget: "0 < retriesLeft"
  proof (rule ccontr)
    assume "\<not> 0 < retriesLeft"
    then have "retriesLeft = 0" by simp
    with assms show False by (simp add: batchGet_zero)
  qed
  have "if batchGet_unprocessed store retriesLeft keys = []
      then result = batchGet_processed store retriesLeft keys \<and>
           fst (batchGet store keys retriesLeft) = [NativeBatchGets (batchGet_requests keys)]
      else \<exists>missingResponses.
             snd (batchGet store (batchGet_unprocessed store retriesLeft keys) (retriesLeft - 1)) =
               Inr missingResponses \<and>
             result = batchGet_processed store retriesLeft keys @ missingResponses \<and>
             fst (batchGet store keys retriesLeft) =
               NativeBatchGets (batchGet_requests keys) #
               fst (batchGet store (batchGet_unprocessed store retriesLeft keys) (retriesLeft - 1))"
  proof (cases "batchGet_unprocessed store retriesLeft keys = []")
    case True
    with assms budget show ?thesis by (simp add: batchGet_last_pass)
  next
    case False
    with assms budget show ?thesis
      by (auto simp: batchGet_retry split: sum.splits)
  qed
  with budget show ?thesis
    unfolding Let_def processed unprocessed requests by simp
qed


lemma distinct_filler_keys: "distinct (map key_of (map filler [a..<b]))"
  by (simp add: distinct_map inj_on_def key_of_def filler_def comp_def)

lemma removeDuplicateKeys_fillers:
  "removeDuplicateKeys (map filler [a..<b]) = map filler [a..<b]"
  using distinct_filler_keys by (rule removeDuplicateKeys_distinct)

lemma removeDuplicateKeys_stragglers:
  "removeDuplicateKeys [filler 99, filler 149] = [filler 99, filler 149]"
  by (rule removeDuplicateKeys_distinct) (simp add: key_of_def filler_def)

theorem batchGet_result_witness:
  "snd (batchGet throttles_last_once many_keys 3) =
     Inr (map filler [0..<99] @ map filler [100..<149] @ [filler 99, filler 149]) \<and>
   fst (batchGet throttles_last_once many_keys 3) =
     [NativeBatchGets [map filler [0..<100], map filler [100..<150]],
      NativeBatchGets [[filler 99, filler 149]]]"
proof -
  have chunks: "(length many_keys + 99) div 100 = Suc (Suc 0)"
    by (simp add: many_keys_def)
  have slice0: "take 100 many_keys = map filler [0..<100]"
    by (simp add: many_keys_def take_map del: upt_rec_numeral)
  have slice1: "take 100 (drop 100 many_keys) = map filler [100..<150]"
    by (simp add: many_keys_def take_map drop_map del: upt_rec_numeral)
  have requests: "batchGet_requests many_keys = [map filler [0..<100], map filler [100..<150]]"
    unfolding batchGet_requests_explicit chunks
    by (simp add: slice0 slice1 removeDuplicateKeys_fillers del: upt_rec_numeral)
  have last0: "last (map filler [0..<100]) = filler 99"
    by (simp add: last_map del: upt_rec_numeral)
  have last1: "last (map filler [100..<150]) = filler 149"
    by (simp add: last_map del: upt_rec_numeral)
  have butlast0: "butlast (map filler [0..<100]) = map filler [0..<99]"
    by (simp add: butlast_conv_take take_map del: upt_rec_numeral)
  have butlast1: "butlast (map filler [100..<150]) = map filler [100..<149]"
    by (simp add: butlast_conv_take take_map del: upt_rec_numeral)
  have responses: "batchGet_responses throttles_last_once 3 many_keys =
      [\<lparr>Responses = map filler [0..<99], UnprocessedKeys = [filler 99]\<rparr>,
       \<lparr>Responses = map filler [100..<149], UnprocessedKeys = [filler 149]\<rparr>]"
    by (simp add: batchGet_responses_def requests throttles_last_once_def
          last0 last1 butlast0 butlast1 del: upt_rec_numeral)
  have unprocessed: "batchGet_unprocessed throttles_last_once 3 many_keys =
      [filler 99, filler 149]"
    by (simp add: batchGet_unprocessed_def responses)
  have processed: "batchGet_processed throttles_last_once 3 many_keys =
      map filler [0..<99] @ map filler [100..<149]"
    by (simp add: batchGet_processed_def responses)
  have requests2: "batchGet_requests [filler 99, filler 149] = [[filler 99, filler 149]]"
    by (simp add: batchGet_requests_explicit removeDuplicateKeys_stragglers)
  have responses2: "batchGet_responses throttles_last_once 2 [filler 99, filler 149] =
      [\<lparr>Responses = [filler 99, filler 149], UnprocessedKeys = []\<rparr>]"
    by (simp add: batchGet_responses_def requests2 throttles_last_once_def)
  have second: "batchGet throttles_last_once [filler 99, filler 149] 2 =
      ([NativeBatchGets [[filler 99, filler 149]]], Inr [filler 99, filler 149])"
    by (simp add: batchGet_last_pass batchGet_unprocessed_def batchGet_processed_def
          responses2 requests2)
  have first: "snd (batchGet throttles_last_once many_keys 3) =
     Inr (map filler [0..<99] @ map filler [100..<149] @ [filler 99, filler 149])"
    by (simp add: batchGet_retry unprocessed processed second)
  have explicit: "concat (map (\<lambda>c. UnprocessedKeys (throttles_last_once 3 c
         (removeDuplicateKeys (take 100 (drop (c * 100) many_keys)))))
         [0..<(length many_keys + 99) div 100]) = [filler 99, filler 149]"
    using unprocessed
    by (simp only: batchGet_unprocessed_def batchGet_responses_explicit map_map comp_def)
  have explicit_requests: "map (\<lambda>c. removeDuplicateKeys (take 100 (drop (c * 100) many_keys)))
         [0..<(length many_keys + 99) div 100] =
         [map filler [0..<100], map filler [100..<150]]"
    using requests by (simp only: batchGet_requests_explicit)
  from batchGet_result [OF first]
  have "fst (batchGet throttles_last_once many_keys 3) =
     [NativeBatchGets [map filler [0..<100], map filler [100..<150]],
      NativeBatchGets [[filler 99, filler 149]]]"
    unfolding Let_def explicit explicit_requests by (auto simp: second)
  with first show ?thesis by simp
qed

section \<open>Paging: the loop and its pages\<close>












end
